theory Spec2Isabelle
  imports Main "HOL-Library.Log_Nat" "HOL-Library.Word"
begin

section \<open>Python values and strings\<close>

text \<open>
  Text that reaches the service from a PDF is a Python \<open>str\<close>, a sequence of Unicode code
  points; it is modelled as a list of natural numbers.  After \<open>normalize_text\<close> only ASCII
  characters remain, and every string handled by the field rules (regular-expression
  matches, monetary values, field names) is modelled as an Isabelle \<open>string\<close>.
  A field value is either a string or Python's \<open>None\<close>.
\<close>

type_synonym codepoint = nat
type_synonym pystr = "codepoint list"

datatype pyval = PyNone | PyStr string

definition ascii :: "string \<Rightarrow> pystr" where
  "ascii s = map of_char s"

section \<open>The built-in \<open>float\<close> constructor and the \<open>.2f\<close> format\<close>

text \<open>
  \<open>normalize_money\<close> evaluates \<open>f"{float(value):.2f}"\<close>.  Both steps belong to the
  language, not to the repository; they are modelled exactly on IEEE 754 binary64 with
  integer arithmetic: \<open>float\<close> parses the string (surrounding whitespace, underscores
  between digits, sign, \<open>inf\<close>/\<open>infinity\<close>/\<open>nan\<close>, decimal digits with an optional
  point and exponent) and rounds the decimal value to the nearest double, ties to even;
  the format rounds the double's exact value to two decimals, ties to even.
  A finite double is \<open>Finite neg m e\<close>, of value \<open>(-1)^neg * m * 2^e\<close>.
\<close>

datatype pyfloat = Finite bool nat int | Infinity bool | NaN

definition is_digit :: "char \<Rightarrow> bool" where
  "is_digit c = (c \<in> set ''0123456789'')"

definition digit_val :: "char \<Rightarrow> nat" where
  "digit_val c = of_char c - 48"

definition nat_of_digits :: "string \<Rightarrow> nat" where
  "nat_of_digits ds = foldl (\<lambda>n c. 10 * n + digit_val c) 0 ds"

text \<open>
  The characters \<open>float\<close> strips from both ends of its argument.  An Isabelle character is
  read as the code point of the same number, below 256.  CPython first replaces every
  non-ASCII white-space code point by a blank (below 256 these are \<open>0x85\<close> and \<open>0xA0\<close>) and
  then strips the white space of the C locale: the code points 9 to 13 and 32.  The
  separators \<open>0x1C\<close> to \<open>0x1F\<close>, white space for \<open>str.isspace\<close>, are ASCII: they are left
  in place and make the conversion fail.
\<close>

definition is_float_space :: "char \<Rightarrow> bool" where
  "is_float_space c = (of_char c \<in> set [9, 10, 11, 12, 13, 32, 0x85, 0xA0 :: nat])"

definition strip_float :: "string \<Rightarrow> string" where
  "strip_float s = rev (dropWhile is_float_space (rev (dropWhile is_float_space s)))"

text \<open>Underscores are accepted only between two digits; they are removed before parsing.\<close>

fun drop_underscores :: "char \<Rightarrow> string \<Rightarrow> string option" where
  "drop_underscores prev [] = (if prev = CHR ''_'' then None else Some [])"
| "drop_underscores prev (c # cs) =
     (if c = CHR ''_'' then
        (if is_digit prev then drop_underscores c cs else None)
      else if prev = CHR ''_'' \<and> \<not> is_digit c then None
      else map_option ((#) c) (drop_underscores c cs))"

definition lower_ascii :: "char \<Rightarrow> char" where
  "lower_ascii c = (if 65 \<le> (of_char c :: nat) \<and> (of_char c :: nat) \<le> 90
                    then char_of (of_char c + 32 :: nat) else c)"

definition split_sign :: "string \<Rightarrow> bool \<times> string" where
  "split_sign s = (case s of
       [] \<Rightarrow> (False, [])
     | c # cs \<Rightarrow> if c = CHR ''-'' then (True, cs)
                else if c = CHR ''+'' then (False, cs)
                else (False, s))"

definition round_half_even :: "nat \<Rightarrow> nat \<Rightarrow> nat" where
  "round_half_even n d =
     (let q = n div d; r = n mod d
      in if 2 * r < d then q
         else if d < 2 * r then q + 1
         else if even q then q else q + 1)"

text \<open>\<open>floor_log2 p q\<close> is the integer \<open>L\<close> with \<open>2^L \<le> p/q < 2^(L+1)\<close>, for positive \<open>p\<close>, \<open>q\<close>.\<close>

definition floor_log2 :: "nat \<Rightarrow> nat \<Rightarrow> int" where
  "floor_log2 p q =
     (let k = bitlen (int p) - bitlen (int q)
      in if (if 0 \<le> k then q * 2 ^ nat k \<le> p else q \<le> p * 2 ^ nat (- k)) then k else k - 1)"

definition round_to_double :: "bool \<Rightarrow> nat \<Rightarrow> nat \<Rightarrow> pyfloat" where
  "round_to_double neg p q =
     (let e = max (floor_log2 p q - 52) (- 1074);
          m = (if 0 \<le> e then round_half_even p (q * 2 ^ nat e)
               else round_half_even (p * 2 ^ nat (- e)) q)
      in if 971 < e \<or> (e = 971 \<and> 2 ^ 53 \<le> m) then Infinity neg else Finite neg m e)"

definition decimal_to_double :: "bool \<Rightarrow> nat \<Rightarrow> int \<Rightarrow> pyfloat" where
  "decimal_to_double neg d x =
     (if d = 0 then Finite neg 0 0
      else if 0 \<le> x then round_to_double neg (d * 10 ^ nat x) 1
      else round_to_double neg d (10 ^ nat (- x)))"

definition parse_exponent :: "string \<Rightarrow> int option" where
  "parse_exponent s = (case s of
       [] \<Rightarrow> Some 0
     | c # cs \<Rightarrow>
         if c = CHR ''e'' \<or> c = CHR ''E'' then
           (let (neg, ds) = split_sign cs
            in if ds \<noteq> [] \<and> list_all is_digit ds
               then Some (if neg then - int (nat_of_digits ds) else int (nat_of_digits ds))
               else None)
         else None)"

definition parse_decimal :: "bool \<Rightarrow> string \<Rightarrow> pyfloat option" where
  "parse_decimal neg s =
     (let ip = takeWhile is_digit s; r1 = dropWhile is_digit s;
          has_point = (r1 \<noteq> [] \<and> hd r1 = CHR ''.'');
          fp = (if has_point then takeWhile is_digit (tl r1) else []);
          r2 = (if has_point then dropWhile is_digit (tl r1) else r1)
      in if ip = [] \<and> fp = [] then None
         else case parse_exponent r2 of
                None \<Rightarrow> None
              | Some x \<Rightarrow> Some (decimal_to_double neg (nat_of_digits (ip @ fp)) (x - int (length fp))))"

definition parse_inf_or_nan :: "bool \<Rightarrow> string \<Rightarrow> pyfloat option" where
  "parse_inf_or_nan neg s =
     (let l = map lower_ascii s
      in if l = ''inf'' \<or> l = ''infinity'' then Some (Infinity neg)
         else if l = ''nan'' then Some NaN
         else None)"

text \<open>\<open>py_float s\<close> is \<open>None\<close> where \<open>float(s)\<close> raises \<open>ValueError\<close>.\<close>

definition py_float :: "string \<Rightarrow> pyfloat option" where
  "py_float s =
     (case drop_underscores (CHR 0x00) (strip_float s) of
        None \<Rightarrow> None
      | Some u \<Rightarrow>
          (let (neg, body) = split_sign u
           in case parse_decimal neg body of
                Some x \<Rightarrow> Some x
              | None \<Rightarrow> parse_inf_or_nan neg body))"

fun show_nat :: "nat \<Rightarrow> string" where
  "show_nat n = (if n < 10 then [char_of (48 + n)]
                 else show_nat (n div 10) @ [char_of (48 + n mod 10)])"

definition format_2f :: "pyfloat \<Rightarrow> string" where
  "format_2f x = (case x of
       NaN \<Rightarrow> ''nan''
     | Infinity neg \<Rightarrow> (if neg then ''-inf'' else ''inf'')
     | Finite neg m e \<Rightarrow>
         (let r = (if 0 \<le> e then m * 2 ^ nat e * 100
                   else round_half_even (m * 100) (2 ^ nat (- e)))
          in (if neg then ''-'' else '''') @ show_nat (r div 100) @ ''.''
             @ [char_of (48 + r mod 100 div 10), char_of (48 + r mod 10)]))"

section \<open>\<open>PDFExtractor.normalize_money\<close>\<close>

text \<open>
  \<open>value.replace(".", "").replace(",", ".")\<close> rebinds \<open>value\<close>; the \<open>except\<close> branch returns
  the rebound string.  A string is a list of Isabelle characters, read as code points
  below 256; the field rules only pass ASCII strings.
\<close>

definition replace_dots_commas :: "string \<Rightarrow> string" where
  "replace_dots_commas v =
     map (\<lambda>c. if c = CHR '','' then CHR ''.'' else c) (filter (\<lambda>c. c \<noteq> CHR ''.'') v)"

definition normalize_money :: "pyval \<Rightarrow> pyval" where
  "normalize_money v = (case v of
       PyNone \<Rightarrow> PyNone
     | PyStr s \<Rightarrow>
         if s = [] then PyNone
         else (let s' = replace_dots_commas s
               in case py_float s' of
                    Some x \<Rightarrow> PyStr (format_2f x)
                  | None \<Rightarrow> PyStr s'))"

section \<open>Regular expressions of the \<open>re\<close> module\<close>

text \<open>
  The four patterns of the field rules use literals, \<open>\d\<close>, \<open>[A-Z]\<close>, \<open>\b\<close>, concatenation
  and greedy bounded or unbounded repetition.  \<open>ends r t i\<close> lists the end positions of the
  matches of \<open>r\<close> in \<open>t\<close> that start at \<open>i\<close>, in the order in which a backtracking matcher
  tries them (a greedy repetition tries one more iteration before stopping); the first
  element is the match that \<open>re\<close> reports.  The subject is ASCII text, where \<open>\d\<close> is
  \<open>[0-9]\<close> and a word character is a letter, a digit or the underscore.
\<close>

datatype regex =
    Lit char
  | Digit
  | Upper
  | WordB
  | Seq regex regex
  | Rep nat "nat option" regex

definition is_upper :: "char \<Rightarrow> bool" where
  "is_upper c = (65 \<le> (of_char c :: nat) \<and> (of_char c :: nat) \<le> 90)"

definition is_lower :: "char \<Rightarrow> bool" where
  "is_lower c = (97 \<le> (of_char c :: nat) \<and> (of_char c :: nat) \<le> 122)"

definition is_word :: "char \<Rightarrow> bool" where
  "is_word c = (is_upper c \<or> is_lower c \<or> is_digit c \<or> c = CHR ''_'')"

definition word_boundary :: "string \<Rightarrow> nat \<Rightarrow> bool" where
  "word_boundary t i =
     ((0 < i \<and> i \<le> length t \<and> is_word (t ! (i - 1))) \<noteq> (i < length t \<and> is_word (t ! i)))"

definition one_char :: "(char \<Rightarrow> bool) \<Rightarrow> string \<Rightarrow> nat \<Rightarrow> nat list" where
  "one_char P t i = (if i < length t \<and> P (t ! i) then [Suc i] else [])"

text \<open>
  \<open>rep f lo hi n i\<close>: greedy repetition of the body \<open>f\<close>, at least \<open>lo\<close> and at most \<open>hi\<close> times.
  Every iteration of the patterns below consumes a character, so at most \<open>length t - i\<close>
  iterations fit; \<open>n\<close> counts them down.
\<close>

fun rep :: "(nat \<Rightarrow> nat list) \<Rightarrow> nat \<Rightarrow> nat option \<Rightarrow> nat \<Rightarrow> nat \<Rightarrow> nat list" where
  "rep f lo hi 0 i = (if lo = 0 then [i] else [])"
| "rep f lo hi (Suc n) i =
     (if hi = Some 0 then []
      else concat (map (\<lambda>j. if i < j then rep f (lo - 1) (map_option (\<lambda>h. h - 1) hi) n j else [])
                       (f i)))
     @ (if lo = 0 then [i] else [])"

primrec ends :: "regex \<Rightarrow> string \<Rightarrow> nat \<Rightarrow> nat list" where
  "ends (Lit c) t i = one_char (\<lambda>x. x = c) t i"
| "ends Digit t i = one_char is_digit t i"
| "ends Upper t i = one_char is_upper t i"
| "ends WordB t i = (if word_boundary t i then [i] else [])"
| "ends (Seq a b) t i = concat (map (ends b t) (ends a t i))"
| "ends (Rep lo hi r) t i = rep (ends r t) lo hi (length t - i) i"

definition substr :: "string \<Rightarrow> nat \<Rightarrow> nat \<Rightarrow> string" where
  "substr t i j = take (j - i) (drop i t)"

text \<open>\<open>re.search\<close> from position \<open>pos\<close>: the leftmost start with a match, and that match's span.\<close>

definition search_from :: "regex \<Rightarrow> string \<Rightarrow> nat \<Rightarrow> (nat \<times> nat) option" where
  "search_from r t pos =
     map_option (\<lambda>i. (i, hd (ends r t i)))
       (find (\<lambda>i. ends r t i \<noteq> []) [pos ..< Suc (length t)])"

definition re_search :: "regex \<Rightarrow> string \<Rightarrow> string option" where
  "re_search r t = map_option (\<lambda>(i, j). substr t i j) (search_from r t 0)"

text \<open>
  \<open>re.findall\<close> for a pattern without capturing groups: the matched substrings of the
  successive non-overlapping matches, each search starting where the previous match ended
  (one character further after an empty match).
\<close>

function findall_from :: "regex \<Rightarrow> string \<Rightarrow> nat \<Rightarrow> string list" where
  "findall_from r t pos =
     (case search_from r t pos of
        None \<Rightarrow> []
      | Some (i, j) \<Rightarrow>
          if pos \<le> i \<and> i \<le> length t
          then substr t i j # findall_from r t (max j (Suc i))
          else [])"
  by pat_completeness auto
termination
  by (relation "measure (\<lambda>(r, t, pos). Suc (length t) - pos)") auto

definition re_findall :: "regex \<Rightarrow> string \<Rightarrow> string list" where
  "re_findall r t = findall_from r t 0"

text \<open>The patterns of \<open>extract_fields_from_text_generic\<close>, in source order.\<close>

definition nome_re :: regex where
  \<comment> \<open>\<^verbatim>\<open>\b([A-Z]{3,}(?: [A-Z]{2,}){0,3})\b\<close>\<close>
  "nome_re = Seq WordB (Seq (Seq (Rep 3 None Upper)
                                 (Rep 0 (Some 3) (Seq (Lit CHR '' '') (Rep 2 None Upper))))
                            WordB)"

definition numero_re :: regex where
  \<comment> \<open>\<^verbatim>\<open>\b\d{4,6}\b\<close>\<close>
  "numero_re = Seq WordB (Seq (Rep 4 (Some 6) Digit) WordB)"

definition data_re :: regex where
  \<comment> \<open>\<^verbatim>\<open>\b\d{2}/\d{2}/\d{4}\b\<close>\<close>
  "data_re = Seq WordB (Seq (Rep 2 (Some 2) Digit) (Seq (Lit CHR ''/'')
               (Seq (Rep 2 (Some 2) Digit) (Seq (Lit CHR ''/'')
               (Seq (Rep 4 (Some 4) Digit) WordB)))))"

definition valores_re :: regex where
  \<comment> \<open>\<^verbatim>\<open>\d{1,3}(?:\.\d{3})*,\d{2}\<close>\<close>
  "valores_re = Seq (Rep 1 (Some 3) Digit)
                 (Seq (Rep 0 None (Seq (Lit CHR ''.'') (Rep 3 (Some 3) Digit)))
                 (Seq (Lit CHR '','') (Rep 2 (Some 2) Digit)))"

section \<open>What a pattern matches\<close>

text \<open>
  The meaning of a pattern, independent of the order in which a matcher explores:
  \<open>matches r t i j\<close> holds when \<open>r\<close> matches the part of \<open>t\<close> from position \<open>i\<close> up to
  position \<open>j\<close>.  A repetition matches any number of consecutive matches of its body
  within its bounds.
\<close>

definition in_bound :: "nat option \<Rightarrow> nat \<Rightarrow> bool" where
  "in_bound hi n = (case hi of None \<Rightarrow> True | Some h \<Rightarrow> n \<le> h)"

primrec matches :: "regex \<Rightarrow> string \<Rightarrow> nat \<Rightarrow> nat \<Rightarrow> bool" where
  "matches (Lit c) t i j = (i < length t \<and> t ! i = c \<and> j = Suc i)"
| "matches Digit t i j = (i < length t \<and> is_digit (t ! i) \<and> j = Suc i)"
| "matches Upper t i j = (i < length t \<and> is_upper (t ! i) \<and> j = Suc i)"
| "matches WordB t i j = (word_boundary t i \<and> j = i)"
| "matches (Seq a b) t i j = (\<exists>k. matches a t i k \<and> matches b t k j)"
| "matches (Rep lo hi r) t i j =
     (\<exists>n. lo \<le> n \<and> in_bound hi n \<and> ((matches r t) ^^ n) i j)"

text \<open>
  A pattern is \<open>consuming\<close> when each of its matches contains a character; in a
  \<open>well_formed\<close> pattern every repeated body is consuming.  The four patterns of the
  extractor are well formed.
\<close>

primrec consuming :: "regex \<Rightarrow> bool" where
  "consuming (Lit c) = True"
| "consuming Digit = True"
| "consuming Upper = True"
| "consuming WordB = False"
| "consuming (Seq a b) = (consuming a \<or> consuming b)"
| "consuming (Rep lo hi r) = (0 < lo \<and> consuming r)"

primrec well_formed :: "regex \<Rightarrow> bool" where
  "well_formed (Lit c) = True"
| "well_formed Digit = True"
| "well_formed Upper = True"
| "well_formed WordB = True"
| "well_formed (Seq a b) = (well_formed a \<and> well_formed b)"
| "well_formed (Rep lo hi r) = (consuming r \<and> well_formed r)"

text \<open>
  The strings a pattern without \<open>\b\<close> matches, read as a regular language: a repetition
  matches the concatenation of a permitted number of strings matched by its body.
\<close>

primrec lang_of :: "regex \<Rightarrow> string \<Rightarrow> bool" where
  "lang_of (Lit c) s = (s = [c])"
| "lang_of Digit s = (\<exists>c. s = [c] \<and> is_digit c)"
| "lang_of Upper s = (\<exists>c. s = [c] \<and> is_upper c)"
| "lang_of WordB s = (s = [])"
| "lang_of (Seq a b) s = (\<exists>x y. s = x @ y \<and> lang_of a x \<and> lang_of b y)"
| "lang_of (Rep lo hi r) s =
     (\<exists>ws. lo \<le> length ws \<and> in_bound hi (length ws) \<and> list_all (lang_of r) ws \<and> s = concat ws)"

primrec boundary_free :: "regex \<Rightarrow> bool" where
  "boundary_free (Lit c) = True"
| "boundary_free Digit = True"
| "boundary_free Upper = True"
| "boundary_free WordB = False"
| "boundary_free (Seq a b) = (boundary_free a \<and> boundary_free b)"
| "boundary_free (Rep lo hi r) = boundary_free r"

text \<open>
  The shapes the identity-document patterns describe: a name is a token of three or more
  uppercase letters followed by at most three further tokens of two or more uppercase
  letters, each preceded by one space; a registration number is four to six digits.
\<close>

definition name_shape :: "string \<Rightarrow> bool" where
  "name_shape s =
     (\<exists>w ws. s = w @ concat (map ((#) CHR '' '') ws)
        \<and> 3 \<le> length w \<and> list_all is_upper w
        \<and> length ws \<le> 3 \<and> list_all (\<lambda>x. 2 \<le> length x \<and> list_all is_upper x) ws)"

definition number_shape :: "string \<Rightarrow> bool" where
  "number_shape s = (4 \<le> length s \<and> length s \<le> 6 \<and> list_all is_digit s)"

text \<open>The length of the longest run of characters satisfying \<open>P\<close> that starts at \<open>i\<close>.\<close>

definition run :: "(char \<Rightarrow> bool) \<Rightarrow> string \<Rightarrow> nat \<Rightarrow> nat" where
  "run P t i = length (takeWhile P (drop i t))"

text \<open>A list of positions in strictly decreasing order.\<close>

definition dec :: "nat list \<Rightarrow> bool" where
  "dec xs = sorted_wrt (\<lambda>x y. y < x) xs"

section \<open>External libraries and the state of the service\<close>

text \<open>
  PyMuPDF, pdf2image, pytesseract, diskcache, \<open>hashlib\<close>, \<open>unicodedata\<close> and \<open>base64\<close> are
  not part of the repository; their functions are parameters, collected in a record.  A
  call that raises returns \<open>Inl msg\<close>, where \<open>msg\<close> is \<open>str(e)\<close> of the exception.  \<open>'p\<close> is the
  type of PDF pages, \<open>'i\<close> of page images.  Dictionary keys and labels are only ever
  compared, and are modelled as byte strings.

  The extractor uses three operations of the disk cache: \<open>key in self.cache\<close>,
  \<open>self.cache[key]\<close> and \<open>self.cache[key] = text\<close>.  Each of them reads or writes a database
  on disk and may raise; \<open>cache_raises L c op\<close> is the message of the exception that the
  operation \<open>op\<close> raises on a cache of contents \<open>c\<close>, and \<open>None\<close> when it completes.
\<close>

type_synonym bytes = "8 word list"

datatype cache_op = Contains string | GetItem string | SetItem string pystr

record ('p, 'i) libs =
  md5_hexdigest :: "bytes \<Rightarrow> string"
  fitz_open :: "bytes \<Rightarrow> pystr + 'p list"
  get_text :: "'p \<Rightarrow> pystr + pystr"
  convert_from_bytes :: "bytes \<Rightarrow> nat \<Rightarrow> pystr + 'i list"
  image_to_string :: "'i \<Rightarrow> string \<Rightarrow> pystr + pystr"
  nfkd :: "pystr \<Rightarrow> pystr"
  b64decode :: "string \<Rightarrow> pystr + bytes"
  cache_raises :: "(string \<rightharpoonup> pystr) \<Rightarrow> cache_op \<Rightarrow> pystr option"

text \<open>The calls made to the extraction libraries are recorded, in order.\<close>

datatype ('p, 'i) call =
    FitzOpen bytes
  | GetText 'p
  | ConvertFromBytes bytes nat
  | ImageToString 'i string

type_synonym fields = "string \<rightharpoonup> pyval"

text \<open>
  The contents of the disk cache (\<open>diskcache.Cache\<close>) and of the knowledge base file are
  dictionaries; the cache is taken as the store the specification describes, whose
  entries never expire.
\<close>

record ('p, 'i) world =
  cache :: "string \<rightharpoonup> pystr"
  calls :: "('p, 'i) call list"
  knowledge_base :: "string \<rightharpoonup> fields list"

section \<open>\<open>PDFExtractor.extract_text_from_pdf_bytes\<close>\<close>

text \<open>
  The exceptions that leave the extractor and the service: the \<open>HTTPException\<close> raised by
  \<open>process\<close>, with its status code and detail, the exception of \<open>base64.b64decode\<close>, and
  the exception of a cache operation.
\<close>

datatype error = HTTPException nat pystr | DecodeError pystr | CacheError pystr

text \<open>\<open>str.isspace\<close>: the white-space code points of Unicode, as CPython lists them.\<close>

definition py_isspace :: "codepoint \<Rightarrow> bool" where
  "py_isspace c =
     ((9 \<le> c \<and> c \<le> 13) \<or> (28 \<le> c \<and> c \<le> 32) \<or> c = 0x85 \<or> c = 0xA0 \<or> c = 0x1680
      \<or> (0x2000 \<le> c \<and> c \<le> 0x200A) \<or> c = 0x2028 \<or> c = 0x2029 \<or> c = 0x202F
      \<or> c = 0x205F \<or> c = 0x3000)"

definition py_strip :: "pystr \<Rightarrow> pystr" where
  "py_strip s = rev (dropWhile py_isspace (rev (dropWhile py_isspace s)))"

definition error_marker :: pystr where
  "error_marker = ascii ''__ERROR__''"

text \<open>\<open>for page in doc: text += page.get_text("text")\<close>\<close>

fun read_pages ::
  "('p, 'i) libs \<Rightarrow> 'p list \<Rightarrow> pystr \<Rightarrow> ('p, 'i) call list \<Rightarrow> (pystr + pystr) \<times> ('p, 'i) call list"
where
  "read_pages L [] text tr = (Inr text, tr)"
| "read_pages L (page # pages) text tr =
     (case get_text L page of
        Inl e \<Rightarrow> (Inl e, tr @ [GetText page])
      | Inr s \<Rightarrow> read_pages L pages (text @ s) (tr @ [GetText page]))"

text \<open>\<open>for img in images: text += pytesseract.image_to_string(img, lang="por+eng")\<close>\<close>

fun ocr_images ::
  "('p, 'i) libs \<Rightarrow> 'i list \<Rightarrow> pystr \<Rightarrow> ('p, 'i) call list \<Rightarrow> (pystr + pystr) \<times> ('p, 'i) call list"
where
  "ocr_images L [] text tr = (Inr text, tr)"
| "ocr_images L (img # images) text tr =
     (case image_to_string L img ''por+eng'' of
        Inl e \<Rightarrow> (Inl e, tr @ [ImageToString img ''por+eng''])
      | Inr s \<Rightarrow> ocr_images L images (text @ s) (tr @ [ImageToString img ''por+eng'']))"

text \<open>The body of the \<open>try\<close> block: \<open>Inl e\<close> when an exception with message \<open>e\<close> leaves it.\<close>

definition try_body ::
  "('p, 'i) libs \<Rightarrow> bytes \<Rightarrow> ('p, 'i) call list \<Rightarrow> (pystr + pystr) \<times> ('p, 'i) call list"
where
  "try_body L pdf_bytes tr =
     (case fitz_open L pdf_bytes of
        Inl e \<Rightarrow> (Inl e, tr @ [FitzOpen pdf_bytes])
      | Inr doc \<Rightarrow>
          (case read_pages L doc [] (tr @ [FitzOpen pdf_bytes]) of
             (Inl e, tr') \<Rightarrow> (Inl e, tr')
           | (Inr text, tr') \<Rightarrow>
               if py_strip text = [] then
                 (case convert_from_bytes L pdf_bytes 200 of
                    Inl e \<Rightarrow> (Inl e, tr' @ [ConvertFromBytes pdf_bytes 200])
                  | Inr images \<Rightarrow>
                      ocr_images L images text (tr' @ [ConvertFromBytes pdf_bytes 200]))
               else (Inr text, tr')))"

text \<open>
  The cache is consulted before the \<open>try\<close> block and written after it: an exception of
  the membership test, of the read or of the write is not handled and leaves the
  function (\<open>Inl\<close>).  When the write raises, the library calls of the \<open>try\<close> block have been
  made and the cache is as it was.
\<close>

definition extract_text_from_pdf_bytes ::
  "('p, 'i) libs \<Rightarrow> ('p, 'i) world \<Rightarrow> bytes \<Rightarrow> (error + pystr) \<times> ('p, 'i) world"
where
  "extract_text_from_pdf_bytes L w pdf_bytes =
     (let key = md5_hexdigest L pdf_bytes
      in case cache_raises L (cache w) (Contains key) of
           Some e \<Rightarrow> (Inl (CacheError e), w)
         | None \<Rightarrow>
             (case cache w key of
                Some cached \<Rightarrow>
                  (case cache_raises L (cache w) (GetItem key) of
                     Some e \<Rightarrow> (Inl (CacheError e), w)
                   | None \<Rightarrow> (Inr cached, w))
              | None \<Rightarrow>
                  (let (r, tr') = try_body L pdf_bytes (calls w);
                       text = (case r of
                                 Inl e \<Rightarrow> ascii ''__ERROR__ '' @ e
                               | Inr text \<Rightarrow> text)
                   in case cache_raises L (cache w) (SetItem key text) of
                        Some e \<Rightarrow> (Inl (CacheError e), w\<lparr>calls := tr'\<rparr>)
                      | None \<Rightarrow>
                          (Inr text, w\<lparr>cache := (cache w)(key \<mapsto> text), calls := tr'\<rparr>))))"

text \<open>A cache none of whose operations raises.\<close>

definition cache_never_raises :: "('p, 'i) libs \<Rightarrow> bool" where
  "cache_never_raises L = (\<forall>c op. cache_raises L c op = None)"

section \<open>\<open>PDFExtractor.normalize_text\<close>\<close>

text \<open>
  \<open>unicodedata.normalize("NFKD", text)\<close> is the parameter \<open>nfkd\<close>;
  \<open>encode("ASCII", "ignore")\<close> drops every code point above 127, and \<open>upper\<close> acts on
  the ASCII letters that remain.
\<close>

definition upper_ascii :: "char \<Rightarrow> char" where
  "upper_ascii c = (if is_lower c then char_of (of_char c - 32 :: nat) else c)"

definition normalize_text :: "('p, 'i) libs \<Rightarrow> pystr \<Rightarrow> string" where
  "normalize_text L text = map upper_ascii (map char_of (filter (\<lambda>c. c < 128) (nfkd L text)))"

section \<open>\<open>PDFExtractor.extract_fields_from_text_generic\<close>\<close>

definition opt_val :: "string option \<Rightarrow> pyval" where
  "opt_val m = (case m of None \<Rightarrow> PyNone | Some s \<Rightarrow> PyStr s)"

definition schema_keys :: "(string \<times> 'd) list \<Rightarrow> string list" where
  "schema_keys schema = map fst schema"

definition extract_fields_from_text_generic ::
  "('p, 'i) libs \<Rightarrow> pystr \<Rightarrow> (string \<times> 'd) list \<Rightarrow> fields"
where
  "extract_fields_from_text_generic L text schema =
     (let t = normalize_text L text
      in if ''numero_oab'' \<in> set (schema_keys schema) then
           (let nome = re_search nome_re t;
                numero = re_search numero_re t
            in [''nome'' \<mapsto> opt_val nome, ''numero_oab'' \<mapsto> opt_val numero])
         else if ''data_referencia'' \<in> set (schema_keys schema) then
           (let data = re_search data_re t;
                valores = re_findall valores_re t
            in [''data_referencia'' \<mapsto> opt_val data,
                ''saldo_vencido'' \<mapsto>
                   (if 0 < length valores then normalize_money (PyStr (valores ! 0)) else PyNone),
                ''saldo_a_vencer'' \<mapsto>
                   (if 1 < length valores then normalize_money (PyStr (valores ! 1)) else PyNone),
                ''total'' \<mapsto>
                   (if valores \<noteq> [] then normalize_money (PyStr (last valores)) else PyNone)])
         else Map.empty)"

section \<open>\<open>PDFExtractionService.process\<close>\<close>

text \<open>
  An exception of \<open>b64decode\<close> or of the extractor leaves \<open>process\<close> as it is (the handler
  that turns it into an HTTP error is in the endpoint \<open>extract_info\<close>).
\<close>

record response =
  label :: string
  extracted_text :: pystr
  extracted_fields :: fields

text \<open>\<open>"__ERROR__" in text\<close>\<close>

fun contains :: "'a list \<Rightarrow> 'a list \<Rightarrow> bool" where
  "contains pat [] = (pat = [])"
| "contains pat (c # cs) = (take (length pat) (c # cs) = pat \<or> contains pat cs)"

text \<open>\<open>fields.setdefault(field, None)\<close>\<close>

definition setdefault :: "string \<Rightarrow> fields \<Rightarrow> fields" where
  "setdefault field fs = (case fs field of None \<Rightarrow> fs(field \<mapsto> PyNone) | Some v \<Rightarrow> fs)"

definition process ::
  "('p, 'i) libs \<Rightarrow> ('p, 'i) world \<Rightarrow> string \<Rightarrow> (string \<times> 'd) list \<Rightarrow> string
     \<Rightarrow> (error + response) \<times> ('p, 'i) world"
where
  "process L w lbl extraction_schema pdf_b64 =
     (case b64decode L pdf_b64 of
        Inl e \<Rightarrow> (Inl (DecodeError e), w)
      | Inr pdf_bytes \<Rightarrow>
          if pdf_bytes = [] then
            (Inl (HTTPException 400 (ascii ''PDF inv'' @ [0xE1] @ ascii ''lido ou vazio'')), w)
          else
            (case extract_text_from_pdf_bytes L w pdf_bytes of
               (Inl e, w1) \<Rightarrow> (Inl e, w1)
             | (Inr text, w1) \<Rightarrow>
                 if contains error_marker text then
                   (Inl (HTTPException 400
                           (ascii ''Erro na extra'' @ [0xE7, 0xE3] @ ascii ''o de texto: '' @ text)), w1)
                 else
                   (let fs = extract_fields_from_text_generic L text extraction_schema;
                        fs' = fold setdefault (schema_keys extraction_schema) fs;
                        knowledge = knowledge_base w1;
                        entries = (case knowledge lbl of None \<Rightarrow> [] | Some es \<Rightarrow> es)
                    in (Inr \<lparr>label = lbl, extracted_text = text, extracted_fields = fs'\<rparr>,
                        w1\<lparr>knowledge_base := knowledge(lbl \<mapsto> entries @ [fs'])\<rparr>))))"

section \<open>Sequences of calls and kinds of library calls\<close>

text \<open>The world after a sequence of \<open>extract_text_from_pdf_bytes\<close> calls.\<close>

fun extract_all :: "('p, 'i) libs \<Rightarrow> ('p, 'i) world \<Rightarrow> bytes list \<Rightarrow> ('p, 'i) world" where
  "extract_all L w [] = w"
| "extract_all L w (b # bs) = extract_all L (snd (extract_text_from_pdf_bytes L w b)) bs"

text \<open>Rasterisation and recognition are the two calls that make up OCR.\<close>

fun is_ocr_call :: "('p, 'i) call \<Rightarrow> bool" where
  "is_ocr_call (ConvertFromBytes b dpi) = True"
| "is_ocr_call (ImageToString i lang) = True"
| "is_ocr_call c = False"

text \<open>The calls a run added to the record.\<close>

definition new_calls :: "('p, 'i) world \<Rightarrow> ('p, 'i) world \<Rightarrow> ('p, 'i) call list" where
  "new_calls w w' = drop (length (calls w)) (calls w')"

section \<open>Well-formed monetary values\<close>

text \<open>
  A value in the Brazilian format: a first group \<open>g\<close> of one to three digits, further groups
  \<open>gs\<close> of three digits each preceded by a dot, a comma and the two decimal digits \<open>c\<close>.
\<close>

definition brl_value :: "string \<Rightarrow> string list \<Rightarrow> string \<Rightarrow> string" where
  "brl_value g gs c = g @ concat (map ((#) CHR ''.'') gs) @ CHR '','' # c"

definition brl_parts :: "string \<Rightarrow> string list \<Rightarrow> string \<Rightarrow> bool" where
  "brl_parts g gs c =
     (list_all is_digit g \<and> 1 \<le> length g \<and> length g \<le> 3
      \<and> list_all (\<lambda>x. list_all is_digit x \<and> length x = 3) gs
      \<and> list_all is_digit c \<and> length c = 2)"

section \<open>A sample instance of the libraries\<close>

text \<open>
  For evaluating the model on sample inputs: a document whose bytes are its pages, each
  page carrying one character of embedded text; a page of byte 0 cannot be read, a
  document containing byte 255 cannot be opened; the image of a page is recognised as
  the letter 33 positions after its byte, except that the image of byte 9 fails.  The
  digest and the Base64 decoder are stand-ins that copy their input, \<open>nfkd\<close> is the
  identity, as NFKD is on ASCII text, and no cache operation raises.  In \<open>locked_libs\<close>
  the cache cannot be accessed: every operation on it raises.  In \<open>full_disk_libs\<close> the
  cache can be read but not written.
\<close>

definition sample_libs :: "(8 word, 8 word) libs" where
  "sample_libs =
     \<lparr> md5_hexdigest = map (\<lambda>b. char_of (unat b)),
       fitz_open = (\<lambda>b. if 255 \<in> set b then Inl (ascii ''cannot open'') else Inr b),
       get_text = (\<lambda>p. if p = 0 then Inl (ascii ''bad page'') else Inr [unat p]),
       convert_from_bytes = (\<lambda>b dpi. Inr b),
       image_to_string = (\<lambda>i lang. if i = 9 then Inl (ascii ''ocr failed'')
                                    else Inr [unat i + 33]),
       nfkd = (\<lambda>s. s),
       b64decode = (\<lambda>s. Inr (map of_char s)),
       cache_raises = (\<lambda>c op. None) \<rparr>"

definition locked_libs :: "(8 word, 8 word) libs" where
  "locked_libs = sample_libs \<lparr> cache_raises := (\<lambda>c op. Some (ascii ''database is locked'')) \<rparr>"

definition full_disk_libs :: "(8 word, 8 word) libs" where
  "full_disk_libs =
     sample_libs \<lparr> cache_raises :=
       (\<lambda>c op. case op of SetItem k v \<Rightarrow> Some (ascii ''disk is full'') | _ \<Rightarrow> None) \<rparr>"

definition empty_world :: "(8 word, 8 word) world" where
  "empty_world = \<lparr> cache = Map.empty, calls = [], knowledge_base = Map.empty \<rparr>"

text \<open>The two schemas of the repository's batch client (\<open>test_extract.py\<close>).\<close>

definition oab_schema :: "(string \<times> string) list" where
  "oab_schema = [(''nome'', ''Nome do advogado''), (''numero_oab'', ''Numero OAB'')]"

definition tela_sistema_schema :: "(string \<times> string) list" where
  "tela_sistema_schema =
     [(''data_referencia'', ''Data de referencia das parcelas''),
      (''saldo_vencido'', ''Valor vencido''),
      (''saldo_a_vencer'', ''Valor a vencer''),
      (''total'', ''Valor total'')]"

section \<open>Key sets of the field mappings\<close>

lemma dom_extract_fields:
  "dom (extract_fields_from_text_generic L text schema) =
     (if ''numero_oab'' \<in> set (schema_keys schema) then {''nome'', ''numero_oab''}
      else if ''data_referencia'' \<in> set (schema_keys schema)
           then {''data_referencia'', ''saldo_vencido'', ''saldo_a_vencer'', ''total''}
      else {})"
  by (auto simp: extract_fields_from_text_generic_def Let_def)

lemma dom_setdefault: "dom (setdefault k fs) = insert k (dom fs)"
  by (auto simp: setdefault_def split: option.splits)

lemma dom_fold_setdefault: "dom (fold setdefault ks fs) = set ks \<union> dom fs"
  by (induction ks arbitrary: fs) (auto simp: dom_setdefault)

lemma setdefault_keeps: "fs k = Some v \<Longrightarrow> setdefault k' fs k = Some v"
  by (auto simp: setdefault_def split: option.splits)

lemma fold_setdefault_keeps: "fs k = Some v \<Longrightarrow> fold setdefault ks fs k = Some v"
  by (induction ks arbitrary: fs) (auto simp: setdefault_keeps)

lemma fold_setdefault_new:
  "fs k = None \<Longrightarrow> k \<in> set ks \<Longrightarrow> fold setdefault ks fs k = Some PyNone"
proof (induction ks arbitrary: fs)
  case Nil then show ?case by simp
next
  case (Cons a ks)
  show ?case
  proof (cases "a = k")
    case True
    then have "setdefault a fs k = Some PyNone" using Cons.prems by (simp add: setdefault_def)
    then show ?thesis by (simp add: fold_setdefault_keeps)
  next
    case False
    then have "setdefault a fs k = None" using Cons.prems
      by (auto simp: setdefault_def split: option.splits)
    moreover have "k \<in> set ks" using Cons.prems False by auto
    ultimately show ?thesis using Cons.IH by simp
  qed
qed

lemma extract_text_knowledge_base:
  "knowledge_base (snd (extract_text_from_pdf_bytes L w b)) = knowledge_base w"
  by (simp add: extract_text_from_pdf_bytes_def Let_def split: option.splits prod.splits)

lemma process_success:
  assumes "process L w lbl schema pdf_b64 = (Inr resp, w')"
  shows "\<exists>b tx w1.
    b64decode L pdf_b64 = Inr b \<and> b \<noteq> [] \<and>
    extract_text_from_pdf_bytes L w b = (Inr tx, w1) \<and>
    \<not> contains error_marker tx \<and>
    resp = \<lparr>label = lbl, extracted_text = tx,
             extracted_fields = fold setdefault (schema_keys schema)
                                  (extract_fields_from_text_generic L tx schema)\<rparr> \<and>
    w' = w1\<lparr>knowledge_base := (knowledge_base w1)(lbl \<mapsto>
             (case knowledge_base w1 lbl of None \<Rightarrow> [] | Some es \<Rightarrow> es)
             @ [extracted_fields resp])\<rparr>"
proof -
  obtain b where b: "b64decode L pdf_b64 = Inr b"
    using assms by (cases "b64decode L pdf_b64") (auto simp: process_def)
  have ne: "b \<noteq> []" using assms b by (auto simp: process_def split: if_splits)
  obtain r w1 where e0: "extract_text_from_pdf_bytes L w b = (r, w1)"
    by (cases "extract_text_from_pdf_bytes L w b") auto
  obtain tx where r: "r = Inr tx"
    using assms b ne e0 by (cases r) (auto simp: process_def)
  have e: "extract_text_from_pdf_bytes L w b = (Inr tx, w1)" using e0 r by simp
  have nc: "\<not> contains error_marker tx"
    using assms b ne e by (auto simp: process_def Let_def split: if_splits)
  show ?thesis
    using assms b ne e nc
    by (auto simp: process_def Let_def)
qed

text \<open>
  Claim C10.  The keys of the mapping returned by \<open>extract_fields_from_text_generic\<close>
  depend only on which dispatch key the schema contains: \<open>nome\<close> and \<open>numero_oab\<close> when
  the schema has \<open>numero_oab\<close>; otherwise the four ledger fields when it has
  \<open>data_referencia\<close>; otherwise none.  The text plays no part, and a schema that declares
  only \<open>numero_oab\<close> receives the undeclared key \<open>nome\<close>.
\<close>

theorem extract_fields_keys_by_dispatch:
  "dom (extract_fields_from_text_generic L text schema) =
     (if ''numero_oab'' \<in> set (schema_keys schema) then {''nome'', ''numero_oab''}
      else if ''data_referencia'' \<in> set (schema_keys schema)
           then {''data_referencia'', ''saldo_vencido'', ''saldo_a_vencer'', ''total''}
      else {})
   \<and> ''nome'' \<in> dom (extract_fields_from_text_generic L text [(''numero_oab'', d)])
   \<and> ''nome'' \<notin> set (schema_keys [(''numero_oab'', d)])"
  by (simp add: dom_extract_fields schema_keys_def)

text \<open>
  Claim C1, as stated, fails: for a schema that declares the single field \<open>seccional\<close>
  the extractor returns the empty mapping, whose key set is not the schema's.
\<close>

theorem extract_fields_keys_not_schema_keys:
  "dom (extract_fields_from_text_generic sample_libs (ascii ''JOAO DA SILVA 123456'')
          [(''seccional'', ''Seccional'')])
     \<noteq> set (schema_keys [(''seccional'', ''Seccional'')])"
  by (simp add: dom_extract_fields schema_keys_def)

text \<open>
  Claim C1, amended.  The missing schema fields are added by \<open>process\<close>, after the
  extractor has run: the mapping that a successful \<open>process\<close> call returns has as keys
  the schema's keys together with the keys the rule set produced; every value the
  rule set produced is kept, and every declared field that no rule populated is present
  with the value \<open>None\<close>.
\<close>

theorem process_fields_cover_schema:
  assumes "process L w lbl schema pdf_b64 = (Inr resp, w')"
  shows "dom (extracted_fields resp) =
           set (schema_keys schema)
           \<union> dom (extract_fields_from_text_generic L (extracted_text resp) schema)
       \<and> (\<forall>k v. extract_fields_from_text_generic L (extracted_text resp) schema k = Some v
              \<longrightarrow> extracted_fields resp k = Some v)
       \<and> (\<forall>k \<in> set (schema_keys schema).
              extract_fields_from_text_generic L (extracted_text resp) schema k = None
              \<longrightarrow> extracted_fields resp k = Some PyNone)"
proof -
  from process_success[OF assms] obtain b tx w1 where
    r: "resp = \<lparr>label = lbl, extracted_text = tx,
             extracted_fields = fold setdefault (schema_keys schema)
                                  (extract_fields_from_text_generic L tx schema)\<rparr>"
    by blast
  show ?thesis
    by (simp add: r dom_fold_setdefault fold_setdefault_keeps fold_setdefault_new)
qed

theorem process_fields_cover_schema_witness:
  "\<exists>resp w'. process sample_libs empty_world ''oab_1''
                 [(''numero_oab'', ''Numero OAB''), (''seccional'', ''Seccional'')]
                 ''JOAO DA SILVA 123456'' = (Inr resp, w')
     \<and> dom (extracted_fields resp) = {''nome'', ''numero_oab'', ''seccional''}
     \<and> extracted_fields resp ''seccional'' = Some PyNone
     \<and> extracted_fields resp ''numero_oab'' = Some (PyStr ''123456'')"
proof -
  let ?S = "[(''numero_oab'', ''Numero OAB''), (''seccional'', ''Seccional'')]"
  let ?p = "process sample_libs empty_world ''oab_1'' ?S ''JOAO DA SILVA 123456''"
  have "\<not> isl (fst ?p)" by code_simp
  then obtain resp w' where p: "?p = (Inr resp, w')"
    by (cases ?p; cases "fst ?p") auto
  have r: "projr (fst ?p) = resp" using p by simp
  have v1: "extracted_fields (projr (fst ?p)) ''seccional'' = Some PyNone" by code_simp
  have v2: "extracted_fields (projr (fst ?p)) ''numero_oab'' = Some (PyStr ''123456'')"
    by code_simp
  from process_fields_cover_schema[OF p]
  have "dom (extracted_fields resp) = set (schema_keys ?S)
          \<union> dom (extract_fields_from_text_generic sample_libs (extracted_text resp) ?S)"
    by blast
  then have d: "dom (extracted_fields resp) = {''nome'', ''numero_oab'', ''seccional''}"
    by (auto simp: dom_extract_fields schema_keys_def)
  show ?thesis using p d v1 v2 r by auto
qed


section \<open>Text extraction: the page loops, the cache and the call record\<close>

lemma read_pages_ok:
  "map (get_text L) pages = map Inr texts \<Longrightarrow>
   read_pages L pages tx tr = (Inr (tx @ concat texts), tr @ map GetText pages)"
proof (induction pages arbitrary: tx tr texts)
  case Nil then show ?case by simp
next
  case (Cons p ps)
  then obtain s ss where t: "texts = s # ss" by (cases texts) auto
  with Cons.prems have g: "get_text L p = Inr s" and m: "map (get_text L) ps = map Inr ss"
    by auto
  show ?case using Cons.IH[OF m] g t by simp
qed

lemma read_pages_fail:
  "map (get_text L) ps = map Inr texts \<Longrightarrow> get_text L p = Inl e \<Longrightarrow>
   read_pages L (ps @ p # rest) tx tr = (Inl e, tr @ map GetText ps @ [GetText p])"
proof (induction ps arbitrary: tx tr texts)
  case Nil then show ?case by simp
next
  case (Cons q qs)
  then obtain s ss where t: "texts = s # ss" by (cases texts) auto
  with Cons.prems have g: "get_text L q = Inr s" and m: "map (get_text L) qs = map Inr ss"
    by auto
  show ?case using Cons.IH[OF m Cons.prems(2)] g t by simp
qed

lemma ocr_images_ok:
  "map (\<lambda>i. image_to_string L i ''por+eng'') images = map Inr ocrs \<Longrightarrow>
   ocr_images L images tx tr =
     (Inr (tx @ concat ocrs), tr @ map (\<lambda>i. ImageToString i ''por+eng'') images)"
proof (induction images arbitrary: tx tr ocrs)
  case Nil then show ?case by simp
next
  case (Cons p ps)
  then obtain s ss where t: "ocrs = s # ss" by (cases ocrs) auto
  with Cons.prems have g: "image_to_string L p ''por+eng'' = Inr s"
    and m: "map (\<lambda>i. image_to_string L i ''por+eng'') ps = map Inr ss"
    by auto
  show ?case using Cons.IH[OF m] g t by simp
qed

lemma ocr_images_fail:
  "map (\<lambda>i. image_to_string L i ''por+eng'') is = map Inr ocrs \<Longrightarrow>
   image_to_string L i ''por+eng'' = Inl e \<Longrightarrow>
   ocr_images L (is @ i # rest) tx tr =
     (Inl e, tr @ map (\<lambda>i. ImageToString i ''por+eng'') is @ [ImageToString i ''por+eng''])"
proof (induction "is" arbitrary: tx tr ocrs)
  case Nil then show ?case by simp
next
  case (Cons q qs)
  then obtain s ss where t: "ocrs = s # ss" by (cases ocrs) auto
  with Cons.prems have g: "image_to_string L q ''por+eng'' = Inr s"
    and m: "map (\<lambda>i. image_to_string L i ''por+eng'') qs = map Inr ss"
    by auto
  show ?case using Cons.IH[OF m Cons.prems(2)] g t by simp
qed

lemma ocr_images_trace:
  "\<exists>n. snd (ocr_images L images tx tr) =
         tr @ map (\<lambda>i. ImageToString i ''por+eng'') (take n images)"
proof (induction images arbitrary: tx tr)
  case Nil then show ?case by simp
next
  case (Cons i images)
  show ?case
  proof (cases "image_to_string L i ''por+eng''")
    case (Inl e)
    then have "snd (ocr_images L (i # images) tx tr) =
                 tr @ map (\<lambda>i. ImageToString i ''por+eng'') (take 1 (i # images))"
      by simp
    then show ?thesis by blast
  next
    case (Inr s)
    from Cons.IH[of "tx @ s" "tr @ [ImageToString i ''por+eng'']"] obtain n where
      "snd (ocr_images L images (tx @ s) (tr @ [ImageToString i ''por+eng''])) =
         (tr @ [ImageToString i ''por+eng'']) @ map (\<lambda>i. ImageToString i ''por+eng'') (take n images)"
      by blast
    then have "snd (ocr_images L (i # images) tx tr) =
                 tr @ map (\<lambda>i. ImageToString i ''por+eng'') (take (Suc n) (i # images))"
      using Inr by simp
    then show ?thesis by blast
  qed
qed

lemma cache_never_raisesD: "cache_never_raises L \<Longrightarrow> cache_raises L c op = None"
  by (simp add: cache_never_raises_def)

lemma extract_text_hit:
  "cache_raises L (cache w) (Contains (md5_hexdigest L b)) = None \<Longrightarrow>
   cache_raises L (cache w) (GetItem (md5_hexdigest L b)) = None \<Longrightarrow>
   cache w (md5_hexdigest L b) = Some T \<Longrightarrow> extract_text_from_pdf_bytes L w b = (Inr T, w)"
  by (simp add: extract_text_from_pdf_bytes_def)

lemma extract_text_miss:
  "cache_raises L (cache w) (Contains (md5_hexdigest L b)) = None \<Longrightarrow>
   cache w (md5_hexdigest L b) = None \<Longrightarrow>
   extract_text_from_pdf_bytes L w b =
     (let r = try_body L b (calls w);
          T = (case fst r of Inl e \<Rightarrow> ascii ''__ERROR__ '' @ e | Inr t \<Rightarrow> t)
      in case cache_raises L (cache w) (SetItem (md5_hexdigest L b) T) of
           Some e \<Rightarrow> (Inl (CacheError e), w\<lparr>calls := snd r\<rparr>)
         | None \<Rightarrow> (Inr T, w\<lparr>cache := (cache w)(md5_hexdigest L b \<mapsto> T), calls := snd r\<rparr>))"
  by (cases "try_body L b (calls w)")
     (simp add: extract_text_from_pdf_bytes_def Let_def split: option.splits)

lemma extract_text_miss_stored:
  "cache_never_raises L \<Longrightarrow> cache w (md5_hexdigest L b) = None \<Longrightarrow>
   extract_text_from_pdf_bytes L w b =
     (let r = try_body L b (calls w);
          T = (case fst r of Inl e \<Rightarrow> ascii ''__ERROR__ '' @ e | Inr t \<Rightarrow> t)
      in (Inr T, w\<lparr>cache := (cache w)(md5_hexdigest L b \<mapsto> T), calls := snd r\<rparr>))"
  by (simp add: extract_text_miss cache_never_raisesD Let_def)

lemma extract_text_stores:
  "extract_text_from_pdf_bytes L w b = (Inr T, w1) \<Longrightarrow> cache w1 (md5_hexdigest L b) = Some T"
  by (auto simp: extract_text_from_pdf_bytes_def Let_def split: option.splits prod.splits)

lemma extract_text_keeps_entries:
  "cache w k = Some v \<Longrightarrow> cache (snd (extract_text_from_pdf_bytes L w b)) k = Some v"
  by (auto simp: extract_text_from_pdf_bytes_def Let_def split: option.splits prod.splits)

lemma extract_text_returns:
  "cache_never_raises L \<Longrightarrow> \<exists>T. fst (extract_text_from_pdf_bytes L w b) = Inr T"
  by (auto simp: extract_text_from_pdf_bytes_def cache_never_raisesD Let_def
           split: option.splits prod.splits)

lemma extract_all_keeps_entries:
  "cache w k = Some v \<Longrightarrow> cache (extract_all L w bs) k = Some v"
  by (induction bs arbitrary: w) (auto simp: extract_text_keeps_entries)

lemma read_pages_trace:
  "\<exists>n. snd (read_pages L pages tx tr) = tr @ map GetText (take n pages)"
proof (induction pages arbitrary: tx tr)
  case Nil then show ?case by simp
next
  case (Cons p ps)
  show ?case
  proof (cases "get_text L p")
    case (Inl e)
    then have "snd (read_pages L (p # ps) tx tr) = tr @ map GetText (take 1 (p # ps))"
      by simp
    then show ?thesis by blast
  next
    case (Inr s)
    from Cons.IH[of "tx @ s" "tr @ [GetText p]"] obtain n where
      "snd (read_pages L ps (tx @ s) (tr @ [GetText p])) =
         (tr @ [GetText p]) @ map GetText (take n ps)" by blast
    then have "snd (read_pages L (p # ps) tx tr) = tr @ map GetText (take (Suc n) (p # ps))"
      using Inr by simp
    then show ?thesis by blast
  qed
qed

lemma try_body_trace: "\<exists>new. snd (try_body L b tr) = tr @ new"
proof (cases "fitz_open L b")
  case (Inl e) then show ?thesis by (simp add: try_body_def)
next
  case (Inr doc)
  obtain r tr1 where rp: "read_pages L doc [] (tr @ [FitzOpen b]) = (r, tr1)"
    by (cases "read_pages L doc [] (tr @ [FitzOpen b])") auto
  from read_pages_trace[of L doc "[]" "tr @ [FitzOpen b]"] rp obtain n where
    t1: "tr1 = (tr @ [FitzOpen b]) @ map GetText (take n doc)" by auto
  show ?thesis
  proof (cases r)
    case (Inl e) then show ?thesis using Inr rp t1 by (simp add: try_body_def)
  next
    case r: (Inr tx)
    show ?thesis
    proof (cases "py_strip tx = []")
      case False then show ?thesis using Inr rp t1 r by (simp add: try_body_def)
    next
      case True
      show ?thesis
      proof (cases "convert_from_bytes L b 200")
        case (Inl e) then show ?thesis using Inr rp t1 r True by (simp add: try_body_def)
      next
        case im: (Inr images)
        from ocr_images_trace[of L images tx "tr1 @ [ConvertFromBytes b 200]"] obtain m where
          "snd (ocr_images L images tx (tr1 @ [ConvertFromBytes b 200])) =
             (tr1 @ [ConvertFromBytes b 200]) @ map (\<lambda>i. ImageToString i ''por+eng'') (take m images)"
          by blast
        then show ?thesis using Inr rp t1 r True im by (simp add: try_body_def)
      qed
    qed
  qed
qed

text \<open>
  Claim C2, as stated, fails: the cache is consulted before the \<open>try\<close> block and written
  after it.  When the cache cannot be accessed, the membership test raises and the
  exception reaches the caller; when only the write fails, the exception of the write
  reaches the caller although the document was read.  Neither call returns a text.
\<close>

theorem cache_exception_reaches_caller:
  "extract_text_from_pdf_bytes locked_libs empty_world [79, 75]
     = (Inl (CacheError (ascii ''database is locked'')), empty_world)
   \<and> fst (extract_text_from_pdf_bytes full_disk_libs empty_world [79, 75])
     = Inl (CacheError (ascii ''disk is full''))"
  by (simp add: extract_text_from_pdf_bytes_def locked_libs_def full_disk_libs_def
                sample_libs_def empty_world_def try_body_def py_strip_def py_isspace_def)

text \<open>
  Claim C2, amended.  The only exceptions that leave \<open>extract_text_from_pdf_bytes\<close> are
  those of the three cache operations, which are outside the \<open>try\<close> block: an exception
  of the membership test, of the read of a cached text, or of the write of the new text
  reaches the caller.  When no cache operation raises, the function returns a text, and
  on a cache miss every failure of parsing, rasterisation or recognition is returned as
  text: when opening the document fails, when reading a page fails after earlier pages
  were read, when rasterising fails, and when recognising an image fails after earlier
  images were recognised, the result is the marker \<open>__ERROR__\<close>, a space and the failure's
  message, and nothing of the text gathered before the failure.
\<close>

theorem extraction_failures_are_error_text:
  "(\<forall>err. fst (extract_text_from_pdf_bytes L w b) = Inl err \<longrightarrow>
        (\<exists>e op. err = CacheError e \<and> cache_raises L (cache w) op = Some e))
   \<and> (cache_never_raises L \<longrightarrow> (\<exists>T. fst (extract_text_from_pdf_bytes L w b) = Inr T))
   \<and> (cache_never_raises L \<and> cache w (md5_hexdigest L b) = None \<longrightarrow>
         (\<forall>e. fitz_open L b = Inl e \<longrightarrow>
            fst (extract_text_from_pdf_bytes L w b) = Inr (ascii ''__ERROR__ '' @ e))
       \<and> (\<forall>ps p rest texts e.
            fitz_open L b = Inr (ps @ p # rest) \<and> map (get_text L) ps = map Inr texts
              \<and> get_text L p = Inl e \<longrightarrow>
            fst (extract_text_from_pdf_bytes L w b) = Inr (ascii ''__ERROR__ '' @ e))
       \<and> (\<forall>pages texts e.
            fitz_open L b = Inr pages \<and> map (get_text L) pages = map Inr texts
              \<and> py_strip (concat texts) = [] \<and> convert_from_bytes L b 200 = Inl e \<longrightarrow>
            fst (extract_text_from_pdf_bytes L w b) = Inr (ascii ''__ERROR__ '' @ e))
       \<and> (\<forall>pages texts is i rest ocrs e.
            fitz_open L b = Inr pages \<and> map (get_text L) pages = map Inr texts
              \<and> py_strip (concat texts) = []
              \<and> convert_from_bytes L b 200 = Inr (is @ i # rest)
              \<and> map (\<lambda>i. image_to_string L i ''por+eng'') is = map Inr ocrs
              \<and> image_to_string L i ''por+eng'' = Inl e \<longrightarrow>
            fst (extract_text_from_pdf_bytes L w b) = Inr (ascii ''__ERROR__ '' @ e)))
   \<and> (\<forall>e. cache_raises L (cache w) (Contains (md5_hexdigest L b)) = Some e \<longrightarrow>
         extract_text_from_pdf_bytes L w b = (Inl (CacheError e), w))
   \<and> (\<forall>e T. cache_raises L (cache w) (Contains (md5_hexdigest L b)) = None
              \<and> cache w (md5_hexdigest L b) = Some T
              \<and> cache_raises L (cache w) (GetItem (md5_hexdigest L b)) = Some e \<longrightarrow>
         extract_text_from_pdf_bytes L w b = (Inl (CacheError e), w))
   \<and> (\<forall>e T. cache_raises L (cache w) (Contains (md5_hexdigest L b)) = None
              \<and> cache w (md5_hexdigest L b) = None
              \<and> T = (case fst (try_body L b (calls w)) of
                        Inl x \<Rightarrow> ascii ''__ERROR__ '' @ x | Inr t \<Rightarrow> t)
              \<and> cache_raises L (cache w) (SetItem (md5_hexdigest L b) T) = Some e \<longrightarrow>
         fst (extract_text_from_pdf_bytes L w b) = Inl (CacheError e)
         \<and> cache (snd (extract_text_from_pdf_bytes L w b)) = cache w)"
proof (intro conjI allI impI)
  fix err assume "fst (extract_text_from_pdf_bytes L w b) = Inl err"
  then show "\<exists>e op. err = CacheError e \<and> cache_raises L (cache w) op = Some e"
    by (auto simp: extract_text_from_pdf_bytes_def Let_def split: option.splits prod.splits)
next
  assume "cache_never_raises L"
  then show "\<exists>T. fst (extract_text_from_pdf_bytes L w b) = Inr T"
    by (rule extract_text_returns)
next
  fix e
  assume "cache_never_raises L \<and> cache w (md5_hexdigest L b) = None" "fitz_open L b = Inl e"
  then show "fst (extract_text_from_pdf_bytes L w b) = Inr (ascii ''__ERROR__ '' @ e)"
    by (simp add: extract_text_miss_stored Let_def try_body_def)
next
  fix ps p rest texts e
  assume "cache_never_raises L \<and> cache w (md5_hexdigest L b) = None"
    "fitz_open L b = Inr (ps @ p # rest) \<and> map (get_text L) ps = map Inr texts
              \<and> get_text L p = Inl e"
  then show "fst (extract_text_from_pdf_bytes L w b) = Inr (ascii ''__ERROR__ '' @ e)"
    by (simp add: extract_text_miss_stored Let_def try_body_def read_pages_fail)
next
  fix pages texts e
  assume "cache_never_raises L \<and> cache w (md5_hexdigest L b) = None"
    "fitz_open L b = Inr pages \<and> map (get_text L) pages = map Inr texts
              \<and> py_strip (concat texts) = [] \<and> convert_from_bytes L b 200 = Inl e"
  then show "fst (extract_text_from_pdf_bytes L w b) = Inr (ascii ''__ERROR__ '' @ e)"
    by (simp add: extract_text_miss_stored Let_def try_body_def read_pages_ok)
next
  fix pages texts "is" i rest ocrs e
  assume "cache_never_raises L \<and> cache w (md5_hexdigest L b) = None"
    "fitz_open L b = Inr pages \<and> map (get_text L) pages = map Inr texts
              \<and> py_strip (concat texts) = []
              \<and> convert_from_bytes L b 200 = Inr (is @ i # rest)
              \<and> map (\<lambda>i. image_to_string L i ''por+eng'') is = map Inr ocrs
              \<and> image_to_string L i ''por+eng'' = Inl e"
  then show "fst (extract_text_from_pdf_bytes L w b) = Inr (ascii ''__ERROR__ '' @ e)"
    by (simp add: extract_text_miss_stored Let_def try_body_def read_pages_ok ocr_images_fail)
next
  fix e assume "cache_raises L (cache w) (Contains (md5_hexdigest L b)) = Some e"
  then show "extract_text_from_pdf_bytes L w b = (Inl (CacheError e), w)"
    by (simp add: extract_text_from_pdf_bytes_def)
next
  fix e T
  assume "cache_raises L (cache w) (Contains (md5_hexdigest L b)) = None
              \<and> cache w (md5_hexdigest L b) = Some T
              \<and> cache_raises L (cache w) (GetItem (md5_hexdigest L b)) = Some e"
  then show "extract_text_from_pdf_bytes L w b = (Inl (CacheError e), w)"
    by (simp add: extract_text_from_pdf_bytes_def)
next
  fix e T
  assume h: "cache_raises L (cache w) (Contains (md5_hexdigest L b)) = None
              \<and> cache w (md5_hexdigest L b) = None
              \<and> T = (case fst (try_body L b (calls w)) of
                        Inl x \<Rightarrow> ascii ''__ERROR__ '' @ x | Inr t \<Rightarrow> t)
              \<and> cache_raises L (cache w) (SetItem (md5_hexdigest L b) T) = Some e"
  then have c: "cache_raises L (cache w) (Contains (md5_hexdigest L b)) = None"
    and m: "cache w (md5_hexdigest L b) = None"
    and st: "cache_raises L (cache w) (SetItem (md5_hexdigest L b)
               (case fst (try_body L b (calls w)) of
                  Inl x \<Rightarrow> ascii ''__ERROR__ '' @ x | Inr t \<Rightarrow> t)) = Some e"
    by auto
  have "extract_text_from_pdf_bytes L w b =
               (Inl (CacheError e), w\<lparr>calls := snd (try_body L b (calls w))\<rparr>)"
    by (simp only: extract_text_miss[OF c m] Let_def st option.case)
  then show "fst (extract_text_from_pdf_bytes L w b) = Inl (CacheError e)"
    and "cache (snd (extract_text_from_pdf_bytes L w b)) = cache w"
    by simp_all
qed

theorem extraction_failures_are_error_text_witness:
  "cache_never_raises sample_libs
   \<and> cache empty_world (md5_hexdigest sample_libs [65, 66, 0, 67]) = None
   \<and> fitz_open sample_libs [65, 66, 0, 67] = Inr ([65, 66] @ 0 # [67])
   \<and> map (get_text sample_libs) [65, 66] = map Inr [[65], [66]]
   \<and> get_text sample_libs 0 = Inl (ascii ''bad page'')
   \<and> fst (extract_text_from_pdf_bytes sample_libs empty_world [65, 66, 0, 67])
       = Inr (ascii ''__ERROR__ '' @ ascii ''bad page'')
   \<and> cache_raises locked_libs (cache empty_world) (Contains (md5_hexdigest locked_libs [65]))
       = Some (ascii ''database is locked'')
   \<and> extract_text_from_pdf_bytes locked_libs empty_world [65]
       = (Inl (CacheError (ascii ''database is locked'')), empty_world)"
proof -
  have rel: "cache_never_raises sample_libs"
    by (simp add: cache_never_raises_def sample_libs_def)
  have miss: "cache empty_world (md5_hexdigest sample_libs [65, 66, 0, 67]) = None"
    by (simp add: empty_world_def)
  have h: "fitz_open sample_libs [65, 66, 0, 67] = Inr ([65, 66] @ 0 # [67])
             \<and> map (get_text sample_libs) [65, 66] = map Inr [[65], [66]]
             \<and> get_text sample_libs 0 = Inl (ascii ''bad page'')"
    by (simp add: sample_libs_def)
  have lk: "cache_raises locked_libs (cache empty_world) (Contains (md5_hexdigest locked_libs [65]))
              = Some (ascii ''database is locked'')"
    by (simp add: locked_libs_def)
  note t = extraction_failures_are_error_text[of sample_libs empty_world "[65, 66, 0, 67]"]
  note t2 = t[THEN conjunct2, THEN conjunct2, THEN conjunct1, rule_format, OF conjI[OF rel miss]]
  note page = t2[THEN conjunct2, THEN conjunct1, rule_format, OF h]
  note u = extraction_failures_are_error_text[of locked_libs empty_world "[65]"]
  note lock = u[THEN conjunct2, THEN conjunct2, THEN conjunct2, THEN conjunct1, rule_format, OF lk]
  show ?thesis
    apply (intro conjI)
           apply (rule rel)
          apply (rule miss)
         apply (rule h[THEN conjunct1])
        apply (rule h[THEN conjunct2, THEN conjunct1])
       apply (rule h[THEN conjunct2, THEN conjunct2])
      apply (rule page)
     apply (rule lk)
    apply (rule lock)
    done
qed

text \<open>
  Claim C3.  On a cache miss, with a cache whose operations do not raise, for a
  document that opens and whose pages are all read:
  when the concatenated embedded text is not blank it is the result, the libraries were
  called only to open the document and read its pages, and no OCR call was made; when
  it is blank the document is rasterised at 200 DPI, and if rasterisation and
  recognition succeed, every image is recognised with the languages \<open>por+eng\<close>, in
  order, and the recognised texts are appended in that order (after the blank embedded
  text, which \<open>text\<close> still holds).
\<close>

theorem ocr_only_without_embedded_text:
  assumes cache_ok: "cache_never_raises L"
    and miss: "cache w (md5_hexdigest L b) = None"
    and doc: "fitz_open L b = Inr pages"
    and pages: "map (get_text L) pages = map Inr texts"
  shows "(py_strip (concat texts) \<noteq> [] \<longrightarrow>
            fst (extract_text_from_pdf_bytes L w b) = Inr (concat texts)
          \<and> new_calls w (snd (extract_text_from_pdf_bytes L w b)) = FitzOpen b # map GetText pages
          \<and> filter is_ocr_call (new_calls w (snd (extract_text_from_pdf_bytes L w b))) = [])
       \<and> (py_strip (concat texts) = [] \<longrightarrow>
            ConvertFromBytes b 200 \<in> set (new_calls w (snd (extract_text_from_pdf_bytes L w b)))
          \<and> (\<forall>images ocrs.
                convert_from_bytes L b 200 = Inr images
                  \<and> map (\<lambda>i. image_to_string L i ''por+eng'') images = map Inr ocrs \<longrightarrow>
                fst (extract_text_from_pdf_bytes L w b) = Inr (concat texts @ concat ocrs)
              \<and> new_calls w (snd (extract_text_from_pdf_bytes L w b)) =
                  FitzOpen b # map GetText pages
                  @ ConvertFromBytes b 200 # map (\<lambda>i. ImageToString i ''por+eng'') images))"
proof (intro conjI impI allI)
  assume ne: "py_strip (concat texts) \<noteq> []"
  have e: "extract_text_from_pdf_bytes L w b =
     (Inr (concat texts), w\<lparr>cache := (cache w)(md5_hexdigest L b \<mapsto> concat texts),
                     calls := calls w @ FitzOpen b # map GetText pages\<rparr>)"
    using ne doc read_pages_ok[OF pages]
    by (simp add: extract_text_miss_stored[OF cache_ok miss] Let_def try_body_def)
  show "fst (extract_text_from_pdf_bytes L w b) = Inr (concat texts)" by (simp add: e)
  show n: "new_calls w (snd (extract_text_from_pdf_bytes L w b)) = FitzOpen b # map GetText pages"
    by (simp add: e new_calls_def)
  show "filter is_ocr_call (new_calls w (snd (extract_text_from_pdf_bytes L w b))) = []"
    by (simp add: n filter_empty_conv)
next
  assume em: "py_strip (concat texts) = []"
  show "ConvertFromBytes b 200 \<in> set (new_calls w (snd (extract_text_from_pdf_bytes L w b)))"
  proof (cases "convert_from_bytes L b 200")
    case (Inl e)
    then show ?thesis using em doc read_pages_ok[OF pages]
      by (simp add: extract_text_miss_stored[OF cache_ok miss] Let_def try_body_def new_calls_def)
  next
    case (Inr images)
    from ocr_images_trace[of L images "concat texts"
           "calls w @ FitzOpen b # map GetText pages @ [ConvertFromBytes b 200]"]
    obtain n where
      "snd (ocr_images L images (concat texts)
              (calls w @ FitzOpen b # map GetText pages @ [ConvertFromBytes b 200])) =
       (calls w @ FitzOpen b # map GetText pages @ [ConvertFromBytes b 200])
         @ map (\<lambda>i. ImageToString i ''por+eng'') (take n images)" by blast
    then show ?thesis using Inr em doc read_pages_ok[OF pages]
      by (simp add: extract_text_miss_stored[OF cache_ok miss] Let_def try_body_def new_calls_def)
  qed
next
  fix images ocrs
  assume em: "py_strip (concat texts) = []"
    and h: "convert_from_bytes L b 200 = Inr images
                  \<and> map (\<lambda>i. image_to_string L i ''por+eng'') images = map Inr ocrs"
  have e: "extract_text_from_pdf_bytes L w b =
     (Inr (concat texts @ concat ocrs),
      w\<lparr>cache := (cache w)(md5_hexdigest L b \<mapsto> concat texts @ concat ocrs),
        calls := calls w @ FitzOpen b # map GetText pages
                 @ ConvertFromBytes b 200 # map (\<lambda>i. ImageToString i ''por+eng'') images\<rparr>)"
    using em h doc read_pages_ok[OF pages] ocr_images_ok[of L images ocrs]
    by (simp add: extract_text_miss_stored[OF cache_ok miss] Let_def try_body_def)
  show "fst (extract_text_from_pdf_bytes L w b) = Inr (concat texts @ concat ocrs)" by (simp add: e)
  show "new_calls w (snd (extract_text_from_pdf_bytes L w b)) =
                  FitzOpen b # map GetText pages
                  @ ConvertFromBytes b 200 # map (\<lambda>i. ImageToString i ''por+eng'') images"
    by (simp add: e new_calls_def)
qed


theorem ocr_only_without_embedded_text_witness:
  "cache_never_raises sample_libs
   \<and> fst (extract_text_from_pdf_bytes sample_libs empty_world [79, 75]) = Inr [79, 75]
   \<and> filter is_ocr_call
        (new_calls empty_world (snd (extract_text_from_pdf_bytes sample_libs empty_world [79, 75])))
       = []
   \<and> py_strip (concat [[32], [10 :: nat]]) = []
   \<and> fst (extract_text_from_pdf_bytes sample_libs empty_world [32, 10]) = Inr [32, 10, 65, 43]
   \<and> new_calls empty_world (snd (extract_text_from_pdf_bytes sample_libs empty_world [32, 10]))
       = [FitzOpen [32, 10], GetText 32, GetText 10, ConvertFromBytes [32, 10] 200,
          ImageToString 32 ''por+eng'', ImageToString 10 ''por+eng'']"
proof -
  have rel: "cache_never_raises sample_libs"
    by (simp add: cache_never_raises_def sample_libs_def)
  have m1: "cache empty_world (md5_hexdigest sample_libs [79, 75]) = None"
    and m2: "cache empty_world (md5_hexdigest sample_libs [32, 10]) = None"
    by (simp_all add: empty_world_def)
  have d1: "fitz_open sample_libs [79, 75] = Inr [79, 75]"
    and d2: "fitz_open sample_libs [32, 10] = Inr [32, 10]"
    by (simp_all add: sample_libs_def)
  have p1: "map (get_text sample_libs) [79, 75] = map Inr [[79], [75]]"
    and p2: "map (get_text sample_libs) [32, 10] = map Inr [[32], [10]]"
    by (simp_all add: sample_libs_def)
  have s1: "py_strip (concat [[79], [75 :: nat]]) \<noteq> []"
    and s2: "py_strip (concat [[32], [10 :: nat]]) = []"
    by (simp_all add: py_strip_def py_isspace_def)
  have o2: "convert_from_bytes sample_libs [32, 10] 200 = Inr [32, 10]
            \<and> map (\<lambda>i. image_to_string sample_libs i ''por+eng'') [32, 10] = map Inr [[65], [43]]"
    by (simp add: sample_libs_def)
  note a = ocr_only_without_embedded_text[OF rel m1 d1 p1]
  note b = ocr_only_without_embedded_text[OF rel m2 d2 p2]
  from a s1 have a': "fst (extract_text_from_pdf_bytes sample_libs empty_world [79, 75]) = Inr (concat [[79], [75]])
     \<and> filter is_ocr_call
        (new_calls empty_world (snd (extract_text_from_pdf_bytes sample_libs empty_world [79, 75]))) = []"
    by blast
  from b s2 o2 have b': "fst (extract_text_from_pdf_bytes sample_libs empty_world [32, 10]) = Inr (concat [[32], [10]] @ concat [[65], [43]])
     \<and> new_calls empty_world (snd (extract_text_from_pdf_bytes sample_libs empty_world [32, 10]))
       = FitzOpen [32, 10] # map GetText [32, 10]
                  @ ConvertFromBytes [32, 10] 200 # map (\<lambda>i. ImageToString i ''por+eng'') [32, 10]"
    by blast
  show ?thesis using rel a' b' s2 by simp
qed

text \<open>
  Claim C6.  Once a call for the bytes \<open>b\<close> has returned the text \<open>T\<close>, the cache holds \<open>T\<close>
  under the digest of \<open>b\<close> (storing and then looking up the same bytes gives \<open>T\<close> back), and
  it still does after any further calls.  With a cache whose operations do not raise, a
  later call for the same bytes returns \<open>T\<close> and leaves the world as it is: no library
  call is recorded, so neither parsing nor OCR ran again.  \<open>T\<close> is arbitrary, so this
  covers error-marked text.  The label and the schema of a request are not arguments of
  the extractor: a \<open>process\<close> call for the same bytes, under any label and schema, records
  no library call either and reports \<open>T\<close> as its text.
\<close>

theorem cached_text_is_returned_without_extraction:
  assumes first: "extract_text_from_pdf_bytes L w b = (Inr T, w1)"
  shows "cache w1 (md5_hexdigest L b) = Some T
       \<and> cache (extract_all L w1 others) (md5_hexdigest L b) = Some T
       \<and> (cache_never_raises L \<longrightarrow>
            extract_text_from_pdf_bytes L (extract_all L w1 others) b
              = (Inr T, extract_all L w1 others)
          \<and> (\<forall>lbl schema pdf_b64. b64decode L pdf_b64 = Inr b \<longrightarrow>
               calls (snd (process L (extract_all L w1 others) lbl schema pdf_b64))
                 = calls (extract_all L w1 others)
             \<and> cache (snd (process L (extract_all L w1 others) lbl schema pdf_b64))
                 = cache (extract_all L w1 others)
             \<and> (\<forall>resp. fst (process L (extract_all L w1 others) lbl schema pdf_b64) = Inr resp
                   \<longrightarrow> extracted_text resp = T)))"
proof -
  let ?w2 = "extract_all L w1 others"
  have c1: "cache w1 (md5_hexdigest L b) = Some T" using first by (rule extract_text_stores)
  then have c2: "cache ?w2 (md5_hexdigest L b) = Some T" by (rule extract_all_keeps_entries)
  have r: "extract_text_from_pdf_bytes L ?w2 b = (Inr T, ?w2)
          \<and> (\<forall>lbl schema pdf_b64. b64decode L pdf_b64 = Inr b \<longrightarrow>
               calls (snd (process L ?w2 lbl schema pdf_b64)) = calls ?w2
             \<and> cache (snd (process L ?w2 lbl schema pdf_b64)) = cache ?w2
             \<and> (\<forall>resp. fst (process L ?w2 lbl schema pdf_b64) = Inr resp
                   \<longrightarrow> extracted_text resp = T))"
    if rel: "cache_never_raises L"
  proof -
    have e: "extract_text_from_pdf_bytes L ?w2 b = (Inr T, ?w2)"
      using c2 by (simp add: extract_text_hit cache_never_raisesD[OF rel])
    have "\<And>lbl schema pdf_b64. b64decode L pdf_b64 = Inr b \<Longrightarrow>
            calls (snd (process L ?w2 lbl schema pdf_b64)) = calls ?w2
          \<and> cache (snd (process L ?w2 lbl schema pdf_b64)) = cache ?w2
          \<and> (\<forall>resp. fst (process L ?w2 lbl schema pdf_b64) = Inr resp
                \<longrightarrow> extracted_text resp = T)"
      using e by (auto simp: process_def Let_def)
    then show ?thesis using e by blast
  qed
  show ?thesis using c1 c2 r by blast
qed

theorem cached_text_is_returned_without_extraction_witness:
  "cache_never_raises sample_libs
   \<and> fst (extract_text_from_pdf_bytes sample_libs empty_world [65, 0])
       = Inr (ascii ''__ERROR__ bad page'')
   \<and> (\<exists>w2. w2 = extract_all sample_libs
                   (snd (extract_text_from_pdf_bytes sample_libs empty_world [65, 0])) [[66], [32]]
        \<and> extract_text_from_pdf_bytes sample_libs w2 [65, 0]
            = (Inr (ascii ''__ERROR__ bad page''), w2))"
proof -
  have rel: "cache_never_raises sample_libs"
    by (simp add: cache_never_raises_def sample_libs_def)
  have x: "fst (extract_text_from_pdf_bytes sample_libs empty_world [65, 0])
          = Inr (ascii ''__ERROR__ bad page'')" by code_simp
  then obtain w1 where
    first: "extract_text_from_pdf_bytes sample_libs empty_world [65, 0]
              = (Inr (ascii ''__ERROR__ bad page''), w1)"
    by (cases "extract_text_from_pdf_bytes sample_libs empty_world [65, 0]") simp
  note t = cached_text_is_returned_without_extraction[OF first, of "[[66], [32]]"]
  note again = t[THEN conjunct2, THEN conjunct2, rule_format, OF rel, THEN conjunct1]
  show ?thesis using rel x first again by simp
qed

section \<open>The service: rejected requests and the knowledge base\<close>

lemma contains_iff: "contains pat s \<longleftrightarrow> (\<exists>pre suf. s = pre @ pat @ suf)"
proof (induction s)
  case Nil then show ?case by auto
next
  case (Cons c cs)
  show ?case
  proof
    assume "contains pat (c # cs)"
    then consider "take (length pat) (c # cs) = pat" | "contains pat cs" by auto
    then show "\<exists>pre suf. c # cs = pre @ pat @ suf"
    proof cases
      case 1
      then have "c # cs = [] @ pat @ drop (length pat) (c # cs)"
        by (metis append_Nil append_take_drop_id)
      then show ?thesis by blast
    next
      case 2
      with Cons.IH obtain pre suf where "cs = pre @ pat @ suf" by blast
      then have "c # cs = (c # pre) @ pat @ suf" by simp
      then show ?thesis by blast
    qed
  next
    assume "\<exists>pre suf. c # cs = pre @ pat @ suf"
    then obtain pre suf where e: "c # cs = pre @ pat @ suf" by blast
    show "contains pat (c # cs)"
    proof (cases pre)
      case Nil
      then have "take (length pat) (c # cs) = pat" using e by simp
      then show ?thesis by simp
    next
      case (Cons d ds)
      then have "cs = ds @ pat @ suf" using e by simp
      then have "contains pat cs" using Cons.IH by blast
      then show ?thesis by simp
    qed
  qed
qed


text \<open>
  Claim C7.  When the decoded bytes are empty, \<open>process\<close> fails with the HTTP error 400 and
  the world is untouched: no library was called and neither the cache nor the knowledge
  base changed.  When the extracted text contains the marker \<open>__ERROR__\<close>, \<open>process\<close> fails
  with the HTTP error 400 although a text was produced; the world is the one the
  extractor left (the text is cached) and the knowledge base is unchanged.
\<close>

theorem process_rejects_empty_and_failed_extraction:
  "(b64decode L pdf_b64 = Inr [] \<longrightarrow>
      process L w lbl schema pdf_b64 =
        (Inl (HTTPException 400 (ascii ''PDF inv'' @ [0xE1] @ ascii ''lido ou vazio'')), w))
   \<and> (\<forall>b pre suf w1.
        b64decode L pdf_b64 = Inr b \<and> b \<noteq> []
          \<and> extract_text_from_pdf_bytes L w b = (Inr (pre @ ascii ''__ERROR__'' @ suf), w1) \<longrightarrow>
        (\<exists>detail. fst (process L w lbl schema pdf_b64) = Inl (HTTPException 400 detail))
        \<and> snd (process L w lbl schema pdf_b64) = w1
        \<and> knowledge_base (snd (process L w lbl schema pdf_b64)) = knowledge_base w)"
proof (intro conjI impI allI)
  assume "b64decode L pdf_b64 = Inr []"
  then show "process L w lbl schema pdf_b64 =
        (Inl (HTTPException 400 (ascii ''PDF inv'' @ [0xE1] @ ascii ''lido ou vazio'')), w)"
    by (simp add: process_def)
next
  fix b pre suf w1
  assume h: "b64decode L pdf_b64 = Inr b \<and> b \<noteq> []
          \<and> extract_text_from_pdf_bytes L w b = (Inr (pre @ ascii ''__ERROR__'' @ suf), w1)"
  have c: "contains error_marker (pre @ ascii ''__ERROR__'' @ suf)"
    unfolding contains_iff error_marker_def by blast
  have p: "process L w lbl schema pdf_b64 =
     (Inl (HTTPException 400
             (ascii ''Erro na extra'' @ [0xE7, 0xE3] @ ascii ''o de texto: ''
              @ pre @ ascii ''__ERROR__'' @ suf)), w1)"
    using h c by (simp add: process_def)
  show "\<exists>detail. fst (process L w lbl schema pdf_b64) = Inl (HTTPException 400 detail)"
    by (simp add: p)
  show "snd (process L w lbl schema pdf_b64) = w1" by (simp add: p)
  have "knowledge_base w1 = knowledge_base w"
    using h extract_text_knowledge_base[of L w b] by simp
  then show "knowledge_base (snd (process L w lbl schema pdf_b64)) = knowledge_base w"
    by (simp add: p)
qed

theorem process_rejects_empty_and_failed_extraction_witness:
  "b64decode sample_libs '''' = Inr []
   \<and> process sample_libs empty_world ''oab_1'' oab_schema '''' =
        (Inl (HTTPException 400 (ascii ''PDF inv'' @ [0xE1] @ ascii ''lido ou vazio'')), empty_world)
   \<and> fst (extract_text_from_pdf_bytes sample_libs empty_world [9])
        = Inr (ascii ''__ERROR__ ocr failed'')
   \<and> (\<exists>detail. fst (process sample_libs empty_world ''oab_1'' oab_schema [CHR 0x09])
                   = Inl (HTTPException 400 detail))
   \<and> knowledge_base (snd (process sample_libs empty_world ''oab_1'' oab_schema [CHR 0x09]))
        = knowledge_base empty_world"
proof -
  note t = process_rejects_empty_and_failed_extraction
  have d1: "b64decode sample_libs '''' = Inr []" by (simp add: sample_libs_def)
  have d2: "b64decode sample_libs [CHR 0x09] = Inr [9]" by (simp add: sample_libs_def)
  have x: "fst (extract_text_from_pdf_bytes sample_libs empty_world [9])
             = Inr (ascii ''__ERROR__ ocr failed'')" by code_simp
  then obtain w1 where
    e: "extract_text_from_pdf_bytes sample_libs empty_world [9]
          = (Inr ([] @ ascii ''__ERROR__'' @ ascii '' ocr failed''), w1)"
    by (cases "extract_text_from_pdf_bytes sample_libs empty_world [9]") (simp add: ascii_def)
  note a = t[of sample_libs "''''" empty_world "''oab_1''" oab_schema,
               THEN conjunct1, rule_format, OF d1]
  have ne: "[9 :: 8 word] \<noteq> []" by simp
  note b = t[of sample_libs "[CHR 0x09]" empty_world "''oab_1''" oab_schema,
               THEN conjunct2, rule_format, OF conjI[OF d2 conjI[OF ne e]]]
  show ?thesis
    apply (intro conjI)
        apply (rule d1)
       apply (rule a)
      apply (rule x)
     apply (rule b[THEN conjunct1])
    apply (rule b[THEN conjunct2, THEN conjunct2])
    done
qed



section \<open>Monetary values: rounding to a double and back to two decimals\<close>

lemma round_half_even_close:
  assumes "0 < d"
  shows "2 * (round_half_even n d * d) \<le> 2 * n + d \<and> 2 * n \<le> 2 * (round_half_even n d * d) + d"
proof -
  define q where "q = n div d"
  define r where "r = n mod d"
  have n: "n = q * d + r" by (simp add: q_def r_def)
  have r: "r < d" using assms by (simp add: r_def)
  define q' where "q' = round_half_even n d"
  have e: "q' = (if 2 * r < d then q else if d < 2 * r then q + 1 else if even q then q else q + 1)"
    by (simp add: q'_def round_half_even_def q_def r_def Let_def)
  have "2 * (q' * d) \<le> 2 * (q * d + r) + d \<and> 2 * (q * d + r) \<le> 2 * (q' * d) + d"
    using r by (auto simp: e algebra_simps)
  then show ?thesis unfolding q'_def using n by simp
qed

lemma round_half_even_unique:
  assumes d: "0 < d" and lo: "2 * (q * d) < 2 * n + d" and hi: "2 * n < 2 * (q * d) + d"
  shows "round_half_even n d = q"
proof -
  let ?q' = "round_half_even n d"
  from round_half_even_close[OF d, of n]
  have c1: "2 * (?q' * d) \<le> 2 * n + d" and c2: "2 * n \<le> 2 * (?q' * d) + d" by auto
  have "\<not> ?q' < q"
  proof
    assume "?q' < q"
    then have "?q' + 1 \<le> q" by simp
    then have "(?q' + 1) * d \<le> q * d" by (rule mult_le_mono1)
    then have "2 * (?q' * d) + 2 * d \<le> 2 * (q * d)" by (simp add: algebra_simps)
    with c2 lo show False by linarith
  qed
  moreover have "\<not> q < ?q'"
  proof
    assume "q < ?q'"
    then have "q + 1 \<le> ?q'" by simp
    then have "(q + 1) * d \<le> ?q' * d" by (rule mult_le_mono1)
    then have "2 * (q * d) + 2 * d \<le> 2 * (?q' * d)" by (simp add: algebra_simps)
    with c1 hi show False by linarith
  qed
  ultimately show ?thesis by simp
qed

lemma floor_log2_cents_le:
  assumes "n < 100 * 2 ^ 46"
  shows "floor_log2 n 100 \<le> 45"
proof -
  have "n < 2 ^ 53" using assms by simp
  then have b: "bitlen (int n) \<le> 53" using less_power_nat_iff_bitlen[of n 53] by simp
  have h: "bitlen (int 100) = 7" by (simp add: compute_bitlen)
  define k where "k = bitlen (int n) - bitlen (int 100)"
  have k: "k \<le> 46" using b h by (simp add: k_def)
  show ?thesis
  proof (cases "k = 46")
    case True
    then have "\<not> 100 * 2 ^ nat k \<le> n" using assms by simp
    then show ?thesis using True unfolding floor_log2_def k_def[symmetric] Let_def by simp
  next
    case False
    then have "k \<le> 45" using k by simp
    then show ?thesis unfolding floor_log2_def k_def[symmetric] Let_def by auto
  qed
qed

lemma format_round_cents:
  assumes pos: "0 < n" and bound: "n < 100 * 2 ^ 46"
  shows "format_2f (round_to_double neg n 100) =
           (if neg then ''-'' else '''') @ show_nat (n div 100) @ ''.''
           @ [char_of (48 + n mod 100 div 10), char_of (48 + n mod 10)]"
proof -
  define e where "e = max (floor_log2 n 100 - 52) (- 1074)"
  define k where "k = nat (- e)"
  define m where "m = round_half_even (n * 2 ^ k) 100"
  have e: "e \<le> - 7" "- 1074 \<le> e" using floor_log2_cents_le[OF bound] by (auto simp: e_def)
  then have k: "7 \<le> k" by (simp add: k_def)
  have r: "round_to_double neg n 100 = Finite neg m e"
    using e by (simp add: round_to_double_def e_def[symmetric] Let_def m_def k_def)
  have "(2::nat) ^ 7 \<le> 2 ^ k" using k by (intro power_increasing) auto
  then have big: "(100::nat) < 2 ^ k" by simp
  from round_half_even_close[of 100 "n * 2 ^ k"]
  have c1: "2 * (m * 100) \<le> 2 * (n * 2 ^ k) + 100" and c2: "2 * (n * 2 ^ k) \<le> 2 * (m * 100) + 100"
    by (auto simp: m_def)
  have "round_half_even (m * 100) (2 ^ k) = n"
  proof (rule round_half_even_unique)
    show "0 < (2::nat) ^ k" by simp
    show "2 * (n * 2 ^ k) < 2 * (m * 100) + 2 ^ k" using c2 big by linarith
    show "2 * (m * 100) < 2 * (n * 2 ^ k) + 2 ^ k" using c1 big by linarith
  qed
  then show ?thesis
    using e by (simp add: r format_2f_def Let_def k_def mod_mod_cancel)
qed

lemma is_digit_facts:
  assumes "is_digit c"
  shows "c \<noteq> CHR ''.''" "c \<noteq> CHR '',''" "c \<noteq> CHR ''_''" "c \<noteq> CHR ''-''" "c \<noteq> CHR ''+''"
    "\<not> is_float_space c" "digit_val c < 10" "char_of (48 + digit_val c) = c"
  using assms by (auto simp: is_digit_def digit_val_def is_float_space_def char_of_eq_iff)

lemma nat_of_digits_snoc: "nat_of_digits (ds @ [c]) = 10 * nat_of_digits ds + digit_val c"
  by (simp add: nat_of_digits_def)

lemma nat_of_digits_append:
  "nat_of_digits (a @ b) = nat_of_digits a * 10 ^ length b + nat_of_digits b"
proof (induction b rule: rev_induct)
  case Nil then show ?case by (simp add: nat_of_digits_def)
next
  case (snoc x xs)
  have "nat_of_digits (a @ xs @ [x]) = 10 * nat_of_digits (a @ xs) + digit_val x"
    using nat_of_digits_snoc[of "a @ xs" x] by simp
  then show ?case by (simp add: snoc.IH nat_of_digits_snoc algebra_simps)
qed

lemma nat_of_digits_less: "list_all is_digit ds \<Longrightarrow> nat_of_digits ds < 10 ^ length ds"
proof (induction ds rule: rev_induct)
  case Nil then show ?case by (simp add: nat_of_digits_def)
next
  case (snoc x xs)
  then have "nat_of_digits xs < 10 ^ length xs" and "digit_val x < 10"
    by (auto simp: is_digit_facts)
  then have "10 * nat_of_digits xs + digit_val x < 10 * 10 ^ length xs" by linarith
  then show ?case by (simp add: nat_of_digits_snoc)
qed

lemma drop_underscores_none:
  "CHR ''_'' \<notin> set s \<Longrightarrow> prev \<noteq> CHR ''_'' \<Longrightarrow> drop_underscores prev s = Some s"
  by (induction s arbitrary: prev) auto

lemma strip_float_id:
  assumes "s \<noteq> []" "\<not> is_float_space (hd s)" "\<not> is_float_space (last s)"
  shows "strip_float s = s"
proof -
  have a: "dropWhile is_float_space s = s" using assms by (simp add: dropWhile_eq_self_iff)
  have "hd (rev s) = last s" using assms by (simp add: hd_rev)
  then have b: "dropWhile is_float_space (rev s) = rev s"
    using assms by (simp add: dropWhile_eq_self_iff)
  show ?thesis by (simp add: strip_float_def a b)
qed

lemma py_float_decimal:
  assumes ds: "ds \<noteq> []" "list_all is_digit ds" and c: "c \<noteq> []" "list_all is_digit c"
  shows "py_float (ds @ CHR ''.'' # c) =
           Some (decimal_to_double False (nat_of_digits (ds @ c)) (- int (length c)))"
proof -
  let ?s = "ds @ CHR ''.'' # c"
  have all: "\<forall>x \<in> set ds. is_digit x" "\<forall>x \<in> set c. is_digit x"
    using ds c by (auto simp: list_all_iff)
  have hd: "is_digit (hd ?s)" using ds all by (cases ds) auto
  have la: "is_digit (last ?s)" using c all by (simp add: last_in_set)
  have st: "strip_float ?s = ?s"
    using hd la by (intro strip_float_id) (auto simp: is_digit_facts)
  have "CHR ''_'' \<notin> set ?s" using all is_digit_facts(3) by auto
  then have du: "drop_underscores (CHR 0x00) ?s = Some ?s"
    by (intro drop_underscores_none) auto
  have sg: "split_sign ?s = (False, ?s)"
    using hd ds is_digit_facts(4,5)[OF hd] by (cases ds) (auto simp: split_sign_def)
  have nd: "\<not> is_digit CHR ''.''" by (simp add: is_digit_def)
  have t1: "takeWhile is_digit ?s = ds" using all nd by (simp add: takeWhile_append2)
  have d1: "dropWhile is_digit ?s = CHR ''.'' # c" using all nd by (simp add: dropWhile_append2)
  have t2: "takeWhile is_digit c = c" using all by (simp add: takeWhile_eq_all_conv)
  have d2: "dropWhile is_digit c = []" using all by simp
  have pd: "parse_decimal False ?s =
              Some (decimal_to_double False (nat_of_digits (ds @ c)) (- int (length c)))"
    using ds c
    by (simp add: parse_decimal_def Let_def t1 d1 t2 d2 parse_exponent_def)
  show ?thesis by (simp add: py_float_def st du sg pd)
qed

lemma show_nat_step: "0 < n \<Longrightarrow> v < 10 \<Longrightarrow> show_nat (10 * n + v) = show_nat n @ [char_of (48 + v)]"
  by (subst show_nat.simps) simp

lemma show_nat_of_digits:
  assumes "ds \<noteq> []" "list_all is_digit ds" "hd ds \<noteq> CHR ''0'' \<or> length ds = 1"
  shows "show_nat (nat_of_digits ds) = ds"
  using assms
proof (induction ds rule: rev_induct)
  case Nil then show ?case by simp
next
  case (snoc x xs)
  have x: "is_digit x" using snoc.prems by simp
  show ?case
  proof (cases "xs = []")
    case True
    then show ?thesis using is_digit_facts(7,8)[OF x]
      by (simp add: nat_of_digits_def)
  next
    case False
    then have h: "hd xs \<noteq> CHR ''0''" using snoc.prems by auto
    have xs: "list_all is_digit xs" using snoc.prems by simp
    have ih: "show_nat (nat_of_digits xs) = xs" using snoc.IH False xs h by simp
    have "nat_of_digits xs \<noteq> 0"
    proof
      assume z: "nat_of_digits xs = 0"
      then have "xs = show_nat 0" using ih by simp
      then have "xs = ''0''" by (simp add: char_of_eq_iff)
      then show False using h by simp
    qed
    then show ?thesis
      using show_nat_step[of "nat_of_digits xs" "digit_val x"] is_digit_facts(7,8)[OF x] ih
      by (simp add: nat_of_digits_snoc)
  qed
qed

lemma format_decimal_cents:
  assumes "n < 100 * 2 ^ 46"
  shows "format_2f (decimal_to_double False n (- 2)) =
           show_nat (n div 100) @ CHR ''.''
           # [char_of (48 + n mod 100 div 10), char_of (48 + n mod 10)]"
proof (cases "n = 0")
  case True
  then show ?thesis by (simp add: decimal_to_double_def format_2f_def)
next
  case False
  then have "0 < n" by simp
  from format_round_cents[OF this assms, of False] False
  show ?thesis by (simp add: decimal_to_double_def)
qed

lemma filter_dots_groups:
  "list_all (\<lambda>x. list_all is_digit x \<and> length x = 3) gs \<Longrightarrow>
   filter (\<lambda>c. c \<noteq> CHR ''.'') (concat (map ((#) CHR ''.'') gs)) = concat gs"
proof (induction gs)
  case Nil then show ?case by simp
next
  case (Cons x xs)
  then have "\<forall>c \<in> set x. c \<noteq> CHR ''.''"
    using is_digit_facts(1) by (auto simp: list_all_iff)
  then have "filter (\<lambda>c. c \<noteq> CHR ''.'') x = x" by (simp add: filter_id_conv)
  then show ?case using Cons by simp
qed

lemma digits_concat:
  "list_all (\<lambda>x. list_all is_digit x \<and> length x = 3) gs \<Longrightarrow> list_all is_digit (concat gs)"
  by (induction gs) auto

lemma replace_dots_commas_brl:
  assumes "brl_parts g gs c"
  shows "replace_dots_commas (brl_value g gs c) = (g @ concat gs) @ CHR ''.'' # c"
proof -
  have g: "list_all is_digit g" and gs: "list_all (\<lambda>x. list_all is_digit x \<and> length x = 3) gs"
    and c: "list_all is_digit c"
    using assms by (auto simp: brl_parts_def)
  have fg: "filter (\<lambda>c. c \<noteq> CHR ''.'') g = g"
    using g is_digit_facts(1) by (auto simp: filter_id_conv list_all_iff)
  have fc: "filter (\<lambda>c. c \<noteq> CHR ''.'') c = c"
    using c is_digit_facts(1) by (auto simp: filter_id_conv list_all_iff)
  have f: "filter (\<lambda>c. c \<noteq> CHR ''.'') (brl_value g gs c) = (g @ concat gs) @ CHR '','' # c"
    by (simp add: brl_value_def fg fc filter_dots_groups[OF gs])
  have d: "list_all is_digit (g @ concat gs)" using g digits_concat[OF gs] by simp
  have m: "\<And>xs. list_all is_digit xs \<Longrightarrow>
             map (\<lambda>c. if c = CHR '','' then CHR ''.'' else c) xs = xs"
    using is_digit_facts(2) by (auto simp: list_all_iff map_idI)
  show ?thesis
    unfolding replace_dots_commas_def f using m[OF d] m[OF c] by simp
qed

lemma two_digits:
  assumes "list_all is_digit c" "length c = 2"
  shows "[char_of (48 + nat_of_digits c mod 100 div 10), char_of (48 + nat_of_digits c mod 10)] = c"
    and "nat_of_digits c < 100"
proof -
  obtain a b where c: "c = [a, b]"
    using assms(2) by (cases c; cases "tl c") auto
  have a: "is_digit a" and b: "is_digit b" using assms c by auto
  have n: "nat_of_digits [a, b] = 10 * digit_val a + digit_val b" by (simp add: nat_of_digits_def)
  show "[char_of (48 + nat_of_digits c mod 100 div 10), char_of (48 + nat_of_digits c mod 10)] = c"
    unfolding c n
    using is_digit_facts(7,8)[OF a] is_digit_facts(7,8)[OF b] by simp
  show "nat_of_digits c < 100"
    unfolding c n
    using is_digit_facts(7)[OF a] is_digit_facts(7)[OF b] by simp
qed

lemma normalize_money_brl:
  assumes parts: "brl_parts g gs c" and bound: "nat_of_digits (g @ concat gs) < 10 ^ 13"
  shows "normalize_money (PyStr (brl_value g gs c)) =
           PyStr (show_nat (nat_of_digits (g @ concat gs)) @ CHR ''.'' # c)"
proof -
  define ds where "ds = g @ concat gs"
  define n where "n = nat_of_digits (ds @ c)"
  have g: "list_all is_digit g" "g \<noteq> []"
    and gs: "list_all (\<lambda>x. list_all is_digit x \<and> length x = 3) gs"
    and c: "list_all is_digit c" "length c = 2"
    using parts by (auto simp: brl_parts_def)
  have ds: "ds \<noteq> []" "list_all is_digit ds" using g digits_concat[OF gs] by (auto simp: ds_def)
  have cne: "c \<noteq> []" using c by auto
  have n: "n = nat_of_digits ds * 100 + nat_of_digits c"
    unfolding n_def using nat_of_digits_append[of ds c] c by simp
  have b: "nat_of_digits ds < 10 ^ 13" using bound by (simp add: ds_def)
  note td = two_digits[OF c]
  have nb: "n < 100 * 2 ^ 46" using b td(2) by (simp add: n)
  have dv: "n div 100 = nat_of_digits ds" using td(2) by (simp add: n)
  have md: "n mod 100 = nat_of_digits c mod 100" by (simp add: n)
  have "n = nat_of_digits c + 10 * (nat_of_digits ds * 10)" by (simp add: n)
  then have md10: "n mod 10 = nat_of_digits c mod 10" by (simp only: mod_mult_self2)
  have fl: "py_float (ds @ CHR ''.'' # c) = Some (decimal_to_double False n (- 2))"
    unfolding n_def using py_float_decimal[OF ds cne c(1)] c(2) by simp
  have fm: "format_2f (decimal_to_double False n (- 2)) =
              show_nat (nat_of_digits ds) @ CHR ''.'' # c"
    using format_decimal_cents[OF nb] td(1) by (simp only: dv md md10)
  have ne: "brl_value g gs c \<noteq> []" using g by (simp add: brl_value_def)
  have rd: "replace_dots_commas (brl_value g gs c) = ds @ CHR ''.'' # c"
    unfolding ds_def by (rule replace_dots_commas_brl[OF parts])
  have "normalize_money (PyStr (brl_value g gs c)) =
           PyStr (show_nat (nat_of_digits ds) @ CHR ''.'' # c)"
    using ne by (simp add: normalize_money_def rd fl fm Let_def)
  then show ?thesis by (simp add: ds_def)
qed

lemma normalize_money_failed:
  "s \<noteq> [] \<Longrightarrow> py_float (replace_dots_commas s) = None \<Longrightarrow>
   normalize_money (PyStr s) = PyStr (replace_dots_commas s)"
  by (simp add: normalize_money_def Let_def)

lemma py_float_reais: "py_float ''R$ 1000.00'' = None"
  by (simp add: py_float_def strip_float_def is_float_space_def split_sign_def
        parse_decimal_def is_digit_def parse_inf_or_nan_def lower_ascii_def Let_def)

lemma replace_reais: "replace_dots_commas ''R$ 1.000,00'' = ''R$ 1000.00''"
  by (simp add: replace_dots_commas_def)

lemma floor_log2_2_53: "floor_log2 900719925474099300 100 = 53"
  by (simp add: floor_log2_def compute_bitlen Let_def)

lemma round_2_53: "round_to_double False 900719925474099300 100 = Finite False 4503599627370496 1"
  by (simp add: round_to_double_def floor_log2_2_53 round_half_even_def Let_def)

lemma show_2_53: "show_nat 9007199254740992 = ''9007199254740992''"
  by (simp add: char_of_eq_iff)

lemma format_2_53: "format_2f (Finite False 4503599627370496 1) = ''9007199254740992.00''"
  by (simp add: format_2f_def show_2_53 char_of_eq_iff del: show_nat.simps)

lemma normalize_money_2_53:
  "normalize_money (PyStr ''9.007.199.254.740.993,00'') = PyStr ''9007199254740992.00''"
proof -
  have r: "replace_dots_commas ''9.007.199.254.740.993,00'' = ''9007199254740993.00''"
    by (simp add: replace_dots_commas_def)
  have "py_float (''9007199254740993'' @ CHR ''.'' # ''00'') =
          Some (decimal_to_double False (nat_of_digits (''9007199254740993'' @ ''00'')) (- int (length ''00'')))"
    by (rule py_float_decimal) (simp_all add: is_digit_def)
  then have f: "py_float ''9007199254740993.00'' = Some (Finite False 4503599627370496 1)"
    by (simp add: nat_of_digits_def digit_val_def decimal_to_double_def round_2_53)
  show ?thesis
    by (simp add: normalize_money_def r Let_def f format_2_53)
qed

lemma normalize_money_example_1: "normalize_money (PyStr ''76.871,20'') = PyStr ''76871.20''"
proof -
  have "normalize_money (PyStr (brl_value ''76'' [''871''] ''20'')) =
          PyStr (show_nat (nat_of_digits (''76'' @ concat [''871''])) @ CHR ''.'' # ''20'')"
    by (rule normalize_money_brl)
       (simp_all add: brl_parts_def is_digit_def nat_of_digits_def digit_val_def)
  then show ?thesis
    by (simp add: brl_value_def nat_of_digits_def digit_val_def char_of_eq_iff)
qed

lemma normalize_money_example_2:
  "normalize_money (PyStr ''1.234.567,89'') = PyStr ''1234567.89''"
proof -
  have "normalize_money (PyStr (brl_value ''1'' [''234'', ''567''] ''89'')) =
          PyStr (show_nat (nat_of_digits (''1'' @ concat [''234'', ''567''])) @ CHR ''.'' # ''89'')"
    by (rule normalize_money_brl)
       (simp_all add: brl_parts_def is_digit_def nat_of_digits_def digit_val_def)
  then show ?thesis
    by (simp add: brl_value_def nat_of_digits_def digit_val_def char_of_eq_iff)
qed

lemma normalize_money_well_formed:
  assumes "brl_parts g gs c" "nat_of_digits (g @ concat gs) < 10 ^ 13"
    and "hd g \<noteq> CHR ''0'' \<or> (length g = 1 \<and> gs = [])"
  shows "normalize_money (PyStr (brl_value g gs c)) = PyStr (replace_dots_commas (brl_value g gs c))"
proof -
  have g: "list_all is_digit g" "g \<noteq> []"
    and gs: "list_all (\<lambda>x. list_all is_digit x \<and> length x = 3) gs"
    using assms(1) by (auto simp: brl_parts_def)
  have ds: "g @ concat gs \<noteq> []" "list_all is_digit (g @ concat gs)"
    using g digits_concat[OF gs] by auto
  have "hd (g @ concat gs) \<noteq> CHR ''0'' \<or> length (g @ concat gs) = 1"
    using assms(3) g by auto
  then have "show_nat (nat_of_digits (g @ concat gs)) = g @ concat gs"
    by (rule show_nat_of_digits[OF ds])
  then show ?thesis
    using assms(2) by (simp add: normalize_money_brl[OF assms(1)] replace_dots_commas_brl[OF assms(1)])
qed

lemma normalize_money_falsy:
  "normalize_money PyNone = PyNone" "normalize_money (PyStr '''') = PyNone"
  by (simp_all add: normalize_money_def)

text \<open>
  Claim C5.  The first parts of the claim hold of the code: \<open>None\<close> and the empty string
  give \<open>None\<close> (\<open>normalize_money_falsy\<close>), the two examples evaluate as stated
  (\<open>normalize_money_example_1\<close>, \<open>normalize_money_example_2\<close>), and a well-formed value
  whose integer part is below \<open>10^13\<close> loses its grouping dots and has its comma replaced
  (\<open>normalize_money_brl\<close>, \<open>normalize_money_well_formed\<close>).  The last part does not:
  \<open>value\<close> is rebound to the result of the two \<open>replace\<close> calls before the \<open>try\<close>, so the
  \<open>except\<close> branch returns the rewritten string.  For the input \<open>R$ 1.000,00\<close> the
  conversion fails and the function returns \<open>R$ 1000.00\<close>: neither the original input,
  which the claim requires, nor \<open>None\<close>, which the docstring of the function promises for
  an invalid input.
\<close>

theorem normalize_money_failed_conversion_rewrites:
  "py_float (replace_dots_commas ''R$ 1.000,00'') = None
   \<and> normalize_money (PyStr ''R$ 1.000,00'') = PyStr ''R$ 1000.00''
   \<and> normalize_money (PyStr ''R$ 1.000,00'') \<noteq> PyStr ''R$ 1.000,00''
   \<and> normalize_money (PyStr ''R$ 1.000,00'') \<noteq> PyNone"
  by (simp add: normalize_money_failed replace_reais py_float_reais)

section \<open>The matcher finds exactly what a pattern matches\<close>

lemma matches_bounds:
  "matches r t i j \<Longrightarrow> i \<le> length t \<Longrightarrow> i \<le> j \<and> j \<le> length t"
proof (induction r arbitrary: i j)
  case (Seq a b)
  then obtain k where k: "matches a t i k" "matches b t k j" by auto
  from Seq.IH(1)[OF k(1) Seq.prems(2)] have "i \<le> k" "k \<le> length t" by auto
  with Seq.IH(2)[OF k(2)] show ?case by auto
next
  case (Rep lo hi r)
  have step: "\<And>n i j. ((matches r t) ^^ n) i j \<Longrightarrow> i \<le> length t \<Longrightarrow> i \<le> j \<and> j \<le> length t"
  proof -
    fix n i j
    show "((matches r t) ^^ n) i j \<Longrightarrow> i \<le> length t \<Longrightarrow> i \<le> j \<and> j \<le> length t"
    proof (induction n arbitrary: j)
      case 0 then show ?case by simp
    next
      case (Suc n)
      then obtain k where k: "((matches r t) ^^ n) i k" "matches r t k j" by auto
      from Suc.IH[OF k(1) Suc.prems(2)] have "i \<le> k" "k \<le> length t" by auto
      with Rep.IH[OF k(2)] show ?case by auto
    qed
  qed
  from Rep.prems show ?case using step by auto
qed (auto)

lemma matches_consuming:
  "consuming r \<Longrightarrow> matches r t i j \<Longrightarrow> i \<le> length t \<Longrightarrow> i < j"
proof (induction r arbitrary: i j)
  case (Seq a b)
  then obtain k where k: "matches a t i k" "matches b t k j" by auto
  from matches_bounds[OF k(1) Seq.prems(3)] have ik: "i \<le> k" "k \<le> length t" by auto
  from matches_bounds[OF k(2) ik(2)] have kj: "k \<le> j" by auto
  from Seq.prems(1) have "consuming a \<or> consuming b" by simp
  then show ?case
  proof
    assume "consuming a"
    from Seq.IH(1)[OF this k(1) Seq.prems(3)] kj show ?thesis by simp
  next
    assume "consuming b"
    from Seq.IH(2)[OF this k(2) ik(2)] ik show ?thesis by simp
  qed
next
  case (Rep lo hi r)
  then obtain n where n: "lo \<le> n" "((matches r t) ^^ n) i j" by auto
  from Rep.prems(1) n(1) obtain m where m: "n = Suc m" by (cases n) auto
  have "((matches r t) ^^ Suc m) i j" using n(2) m by simp
  from relpowp_Suc_D2[OF this] obtain k where k: "matches r t i k" "((matches r t) ^^ m) k j"
    by blast
  from Rep.prems(1) have c: "consuming r" by simp
  from Rep.IH[OF c k(1) Rep.prems(3)] have ik: "i < k" .
  from matches_bounds[OF k(1) Rep.prems(3)] have kl: "k \<le> length t" by simp
  have "matches (Rep 0 None r) t k j" using k(2) by (auto simp: in_bound_def)
  from matches_bounds[OF this kl] ik show ?case by simp
qed (auto)

lemma in_bound_Suc: "in_bound hi (Suc m) \<longleftrightarrow> hi \<noteq> Some 0 \<and> in_bound (map_option (\<lambda>h. h - 1) hi) m"
  by (cases hi) (auto simp: in_bound_def)

lemma rep_correct:
  assumes f: "\<And>i. i \<le> len \<Longrightarrow> set (f i) = {j. M i j}"
    and prog: "\<And>i j. M i j \<Longrightarrow> i \<le> len \<Longrightarrow> i < j \<and> j \<le> len"
  shows "len - i \<le> fuel \<Longrightarrow> i \<le> len \<Longrightarrow>
         set (rep f lo hi fuel i) = {j. \<exists>n. lo \<le> n \<and> in_bound hi n \<and> (M ^^ n) i j}"
proof (induction fuel arbitrary: lo hi i)
  case 0
  then have i: "i = len" by simp
  have no: "\<And>m j. \<not> (M ^^ Suc m) i j"
  proof
    fix m j assume "(M ^^ Suc m) i j"
    from relpowp_Suc_D2[OF this] obtain k where "M i k" by blast
    from prog[OF this] i show False by auto
  qed
  have "\<And>j. (\<exists>n. lo \<le> n \<and> in_bound hi n \<and> (M ^^ n) i j) \<longleftrightarrow> (lo = 0 \<and> j = i)"
  proof
    fix j
    assume "\<exists>n. lo \<le> n \<and> in_bound hi n \<and> (M ^^ n) i j"
    then obtain n where n: "lo \<le> n" "(M ^^ n) i j" by blast
    show "lo = 0 \<and> j = i"
    proof (cases n)
      case 0 then show ?thesis using n by auto
    next
      case (Suc m) then show ?thesis using n no by blast
    qed
  next
    fix j
    assume "lo = 0 \<and> j = i"
    then have "lo \<le> 0 \<and> in_bound hi 0 \<and> (M ^^ 0) i j"
      by (cases hi) (auto simp: in_bound_def)
    then show "\<exists>n. lo \<le> n \<and> in_bound hi n \<and> (M ^^ n) i j" by blast
  qed
  then show ?case by auto
next
  case (Suc fuel)
  let ?hi' = "map_option (\<lambda>h. h - 1) hi"
  have ih: "\<And>k. M i k \<Longrightarrow>
      set (rep f (lo - 1) ?hi' fuel k) = {j. \<exists>m. lo - 1 \<le> m \<and> in_bound ?hi' m \<and> (M ^^ m) k j}"
  proof -
    fix k assume "M i k"
    from prog[OF this Suc.prems(2)] have "i < k" "k \<le> len" by auto
    then have "len - k \<le> fuel" using Suc.prems(1) by simp
    from Suc.IH[OF this \<open>k \<le> len\<close>]
    show "set (rep f (lo - 1) ?hi' fuel k) = {j. \<exists>m. lo - 1 \<le> m \<and> in_bound ?hi' m \<and> (M ^^ m) k j}" .
  qed
  have fi: "set (f i) = {k. M i k}" using f[OF Suc.prems(2)] .
  have lt: "\<And>k. M i k \<Longrightarrow> i < k" using prog[OF _ Suc.prems(2)] by blast
  show ?case
  proof (intro set_eqI iffI)
    fix j
    assume "j \<in> set (rep f lo hi (Suc fuel) i)"
    then consider
      (more) k where "hi \<noteq> Some 0" "k \<in> set (f i)" "i < k" "j \<in> set (rep f (lo - 1) ?hi' fuel k)"
      | (stop) "lo = 0" "j = i"
      by (auto split: if_splits)
    then show "j \<in> {j. \<exists>n. lo \<le> n \<and> in_bound hi n \<and> (M ^^ n) i j}"
    proof cases
      case more
      then have mk: "M i k" using fi by simp
      from more(4) ih[OF mk] obtain m where
        m: "lo - 1 \<le> m" "in_bound ?hi' m" "(M ^^ m) k j" by auto
      have "(M ^^ Suc m) i j" using mk m(3) by (rule relpowp_Suc_I2)
      moreover have "lo \<le> Suc m" using m(1) by simp
      moreover have "in_bound hi (Suc m)" using more(1) m(2) by (simp add: in_bound_Suc)
      ultimately show ?thesis by blast
    next
      case stop
      then have "lo \<le> 0 \<and> in_bound hi 0 \<and> (M ^^ 0) i j"
        by (cases hi) (auto simp: in_bound_def)
      then show ?thesis by blast
    qed
  next
    fix j
    assume "j \<in> {j. \<exists>n. lo \<le> n \<and> in_bound hi n \<and> (M ^^ n) i j}"
    then obtain n where n: "lo \<le> n" "in_bound hi n" "(M ^^ n) i j" by blast
    show "j \<in> set (rep f lo hi (Suc fuel) i)"
    proof (cases n)
      case 0
      then have "lo = 0" "j = i" using n by auto
      then show ?thesis by simp
    next
      case (Suc m)
      then have "(M ^^ Suc m) i j" using n(3) by simp
      from relpowp_Suc_D2[OF this] obtain k where k: "M i k" "(M ^^ m) k j" by blast
      have w: "hi \<noteq> Some 0" "in_bound ?hi' m" using n(2) Suc by (auto simp: in_bound_Suc)
      have "lo - 1 \<le> m" using n(1) Suc by simp
      then have "j \<in> set (rep f (lo - 1) ?hi' fuel k)" using ih[OF k(1)] w(2) k(2) by blast
      moreover have "k \<in> set (f i)" using fi k(1) by simp
      ultimately show ?thesis using w(1) lt[OF k(1)] by auto
    qed
  qed
qed

lemma ends_correct:
  "well_formed r \<Longrightarrow> i \<le> length t \<Longrightarrow> set (ends r t i) = {j. matches r t i j}"
proof (induction r arbitrary: i)
  case (Seq a b)
  have a: "set (ends a t i) = {k. matches a t i k}" using Seq by simp
  have b: "\<And>k. matches a t i k \<Longrightarrow> set (ends b t k) = {j. matches b t k j}"
  proof -
    fix k assume "matches a t i k"
    from matches_bounds[OF this Seq.prems(2)] have "k \<le> length t" by simp
    then show "set (ends b t k) = {j. matches b t k j}" using Seq by simp
  qed
  show ?case using a b by auto
next
  case (Rep lo hi r)
  have c: "consuming r" and w: "well_formed r" using Rep.prems by auto
  have "set (rep (ends r t) lo hi (length t - i) i) =
          {j. \<exists>n. lo \<le> n \<and> in_bound hi n \<and> ((matches r t) ^^ n) i j}"
  proof (rule rep_correct[where len = "length t"])
    show "\<And>i. i \<le> length t \<Longrightarrow> set (ends r t i) = {j. matches r t i j}"
      using Rep.IH[OF w] .
    show "\<And>i j. matches r t i j \<Longrightarrow> i \<le> length t \<Longrightarrow> i < j \<and> j \<le> length t"
      using matches_consuming[OF c] matches_bounds by blast
    show "length t - i \<le> length t - i" by simp
    show "i \<le> length t" using Rep.prems by simp
  qed
  then show ?case by simp
qed (auto simp: one_char_def)

lemma search_from_Some:
  assumes "well_formed r" "search_from r t 0 = Some (i, j)"
  shows "matches r t i j \<and> i \<le> length t \<and> (\<forall>i' < i. \<forall>j'. \<not> matches r t i' j')
         \<and> j = hd (ends r t i) \<and> ends r t i \<noteq> []"
proof -
  from assms(2) obtain k where
    k: "find (\<lambda>i. ends r t i \<noteq> []) [0 ..< Suc (length t)] = Some k" and
    ij: "i = k" "j = hd (ends r t k)"
    by (auto simp: search_from_def)
  from k[unfolded find_Some_iff] obtain n where
    n: "n < length [0 ..< Suc (length t)]" "ends r t ([0 ..< Suc (length t)] ! n) \<noteq> []"
       "k = [0 ..< Suc (length t)] ! n"
       "\<forall>m < n. \<not> ends r t ([0 ..< Suc (length t)] ! m) \<noteq> []"
    by blast
  have kn: "k = n" "n \<le> length t" using n(1,3) by (auto simp: nth_upt simp del: upt_Suc)
  have ne: "ends r t i \<noteq> []" using n(2,3) ij by simp
  then have "hd (ends r t i) \<in> set (ends r t i)" by simp
  then have m: "matches r t i j" using ends_correct[OF assms(1), of i t] kn ij by simp
  have "\<forall>i' < i. \<forall>j'. \<not> matches r t i' j'"
  proof (intro allI impI)
    fix i' j' assume l: "i' < i"
    then have "i' < n" using ij kn by simp
    with n(4) n(1) have "ends r t ([0 ..< Suc (length t)] ! i') = []" by blast
    moreover have "[0 ..< Suc (length t)] ! i' = i'"
      using l ij kn by (simp add: nth_upt del: upt_Suc)
    ultimately have "ends r t i' = []" by simp
    moreover have "i' \<le> length t" using l ij kn by simp
    ultimately show "\<not> matches r t i' j'" using ends_correct[OF assms(1), of i' t] by auto
  qed
  then show ?thesis using m kn ij ne by simp
qed

lemma search_from_None:
  assumes "well_formed r" "search_from r t 0 = None" "i \<le> length t"
  shows "\<not> matches r t i j"
proof -
  from assms(2) have "find (\<lambda>i. ends r t i \<noteq> []) [0 ..< Suc (length t)] = None"
    by (simp add: search_from_def)
  then have "\<forall>k \<in> set [0 ..< Suc (length t)]. ends r t k = []"
    unfolding find_None_iff by blast
  then have "ends r t i = []" using assms(3) by (simp del: upt_Suc)
  then show ?thesis using ends_correct[OF assms(1,3)] by auto
qed

section \<open>Greedy repetition tries the longest match first\<close>

lemma run_zero: "\<not> (i < length t \<and> P (t ! i)) \<Longrightarrow> run P t i = 0"
  by (cases "i < length t") (auto simp: run_def hd_drop_conv_nth takeWhile_eq_Nil_iff)

lemma run_Suc: "i < length t \<Longrightarrow> P (t ! i) \<Longrightarrow> run P t i = Suc (run P t (Suc i))"
  by (simp add: run_def Cons_nth_drop_Suc[symmetric])

lemma run_nth:
  assumes "s \<le> j" "j < s + run P t s"
  shows "j < length t \<and> P (t ! j)"
proof -
  let ?w = "takeWhile P (drop s t)"
  have l: "j - s < length ?w" using assms by (simp add: run_def)
  have "length ?w \<le> length (drop s t)" by (rule length_takeWhile_le)
  then have jl: "j < length t" using l assms(1) by simp
  have "?w ! (j - s) = drop s t ! (j - s)" using l by (rule takeWhile_nth)
  then have "?w ! (j - s) = t ! j" using assms(1) jl by simp
  moreover have "?w ! (j - s) \<in> set ?w" using l by (rule nth_mem)
  ultimately have "P (t ! j)" using set_takeWhileD by metis
  then show ?thesis using jl by simp
qed

lemma rep_class_unbounded:
  "length t - i \<le> fuel \<Longrightarrow>
   rep (one_char P t) lo None fuel i =
     (if lo \<le> run P t i then rev [i + lo ..< Suc (i + run P t i)] else [])"
proof (induction fuel arbitrary: lo i)
  case 0
  then have "\<not> (i < length t \<and> P (t ! i))" by simp
  then have "run P t i = 0" by (rule run_zero)
  then show ?case by simp
next
  case (Suc fuel)
  show ?case
  proof (cases "i < length t \<and> P (t ! i)")
    case False
    then have r: "run P t i = 0" by (rule run_zero)
    have "one_char P t i = []" using False by (auto simp: one_char_def)
    then show ?thesis by (simp add: r)
  next
    case True
    then have r: "run P t i = Suc (run P t (Suc i))" by (simp add: run_Suc)
    have o: "one_char P t i = [Suc i]" using True by (simp add: one_char_def)
    have "length t - Suc i \<le> fuel" using Suc.prems by simp
    note ih = Suc.IH[OF this, of "lo - 1"]
    show ?thesis
    proof (cases lo)
      case 0
      have "[i ..< Suc (Suc (i + run P t (Suc i)))] = i # [Suc i ..< Suc (Suc (i + run P t (Suc i)))]"
        by (simp add: upt_conv_Cons del: upt_Suc)
      then show ?thesis using 0 o ih r by (simp del: upt_Suc)
    next
      case (Suc l)
      then show ?thesis using o ih r by (simp del: upt_Suc)
    qed
  qed
qed

lemma dec_rev_upt: "dec (rev [a ..< b])"
  by (simp add: dec_def sorted_wrt_rev)

lemma dec_hd_max: "dec xs \<Longrightarrow> x \<in> set xs \<Longrightarrow> x \<le> hd xs"
  by (cases xs) (auto simp: dec_def)

lemma dec_filter: "dec xs \<Longrightarrow> dec (filter Q xs)"
  by (simp add: dec_def sorted_wrt_filter)

lemma dec_singletons:
  assumes "dec ks" "\<And>k. k \<in> set ks \<Longrightarrow> dec (g k) \<and> set (g k) \<subseteq> {k}"
  shows "dec (concat (map g ks)) \<and> set (concat (map g ks)) \<subseteq> set ks"
  using assms
proof (induction ks)
  case Nil then show ?case by (simp add: dec_def)
next
  case (Cons k ks)
  have d: "dec ks" using Cons.prems(1) by (simp add: dec_def)
  have ih: "dec (concat (map g ks))" "set (concat (map g ks)) \<subseteq> set ks"
    using Cons.IH[OF d] Cons.prems(2) by auto
  have gk: "dec (g k)" "set (g k) \<subseteq> {k}" using Cons.prems(2)[of k] by auto
  have "\<forall>x \<in> set (g k). \<forall>y \<in> set (concat (map g ks)). y < x"
  proof (intro ballI)
    fix x y assume "x \<in> set (g k)" "y \<in> set (concat (map g ks))"
    then have "x = k" "y \<in> set ks" using gk(2) ih(2) by auto
    then show "y < x" using Cons.prems(1) by (auto simp: dec_def)
  qed
  then have "dec (g k @ concat (map g ks))"
    using gk(1) ih(1) by (simp add: dec_def sorted_wrt_append)
  then show ?case using gk(2) ih(2) by auto
qed

lemma dec_concat_map:
  assumes ks: "dec ks"
    and g: "\<And>k. k \<in> set ks \<Longrightarrow> dec (g k) \<and> (\<forall>j \<in> set (g k). k \<le> j)"
    and dead: "\<And>k. k \<in> set ks \<Longrightarrow> k \<noteq> hd ks \<Longrightarrow> set (g k) \<subseteq> {k}"
  shows "dec (concat (map g ks))"
proof (cases ks)
  case Nil then show ?thesis by (simp add: dec_def)
next
  case (Cons k0 rest)
  have d: "dec rest" using ks Cons by (simp add: dec_def)
  have lt: "\<And>k. k \<in> set rest \<Longrightarrow> k < k0" using ks Cons by (auto simp: dec_def)
  have sing: "\<And>k. k \<in> set rest \<Longrightarrow> dec (g k) \<and> set (g k) \<subseteq> {k}"
  proof -
    fix k assume k: "k \<in> set rest"
    then have "k \<in> set ks" "k \<noteq> hd ks" using lt[OF k] Cons by auto
    then show "dec (g k) \<and> set (g k) \<subseteq> {k}" using g[of k] dead[of k] by blast
  qed
  from dec_singletons[OF d sing]
  have r: "dec (concat (map g rest))" "set (concat (map g rest)) \<subseteq> set rest" by auto
  have g0: "dec (g k0)" "\<forall>j \<in> set (g k0). k0 \<le> j" using g[of k0] Cons by auto
  have cross: "\<forall>x \<in> set (g k0). \<forall>y \<in> set (concat (map g rest)). y < x"
  proof (intro ballI)
    fix x y assume "x \<in> set (g k0)" "y \<in> set (concat (map g rest))"
    then have "k0 \<le> x" "y \<in> set rest" using g0(2) r(2) by auto
    then show "y < x" using lt[of y] by simp
  qed
  have "dec (g k0 @ concat (map g rest))"
    using g0(1) r(1) cross unfolding dec_def sorted_wrt_append by blast
  then show ?thesis using Cons by simp
qed

lemma rep_dead:
  "f k = [] \<Longrightarrow> set (rep f lo hi fuel k) \<subseteq> {k}"
  by (cases fuel) auto

lemma rep_dec:
  assumes f1: "\<And>k. dec (f k)"
    and f3: "\<And>k j. j \<in> set (f k) \<Longrightarrow> j \<noteq> hd (f k) \<Longrightarrow> f j = []"
  shows "dec (rep f lo hi fuel k) \<and> (\<forall>j \<in> set (rep f lo hi fuel k). k \<le> j)"
proof (induction fuel arbitrary: lo hi k)
  case 0
  then show ?case by (simp add: dec_def)
next
  case (Suc fuel)
  let ?hi' = "map_option (\<lambda>h. h - 1) hi"
  let ?g = "\<lambda>j. if k < j then rep f (lo - 1) ?hi' fuel j else []"
  have g: "\<And>j. j \<in> set (f k) \<Longrightarrow> dec (?g j) \<and> (\<forall>x \<in> set (?g j). j \<le> x)"
  proof -
    fix j
    show "dec (?g j) \<and> (\<forall>x \<in> set (?g j). j \<le> x)"
    proof (cases "k < j")
      case True
      then show ?thesis using Suc.IH[of "lo - 1" ?hi' j] by simp
    next
      case False
      then show ?thesis by (simp add: dec_def)
    qed
  qed
  have dead: "\<And>j. j \<in> set (f k) \<Longrightarrow> j \<noteq> hd (f k) \<Longrightarrow> set (?g j) \<subseteq> {j}"
  proof -
    fix j assume "j \<in> set (f k)" "j \<noteq> hd (f k)"
    then have "f j = []" by (rule f3)
    then have "set (rep f (lo - 1) ?hi' fuel j) \<subseteq> {j}"
      by (rule rep_dead[of f j "lo - 1" ?hi' fuel])
    then show "set (?g j) \<subseteq> {j}" by auto
  qed
  have m: "dec (concat (map ?g (f k)))"
    by (rule dec_concat_map[OF f1 g dead])
  have gt: "\<forall>x \<in> set (concat (map ?g (f k))). k < x"
  proof
    fix x assume "x \<in> set (concat (map ?g (f k)))"
    then obtain j where j: "j \<in> set (f k)" "x \<in> set (?g j)" by auto
    then have kj: "k < j" by (auto split: if_splits)
    with j(2) have "x \<in> set (rep f (lo - 1) ?hi' fuel j)" by simp
    with Suc.IH[of "lo - 1" ?hi' j] have "j \<le> x" by blast
    with kj show "k < x" by simp
  qed
  define more where "more = (if hi = Some 0 then [] else concat (map ?g (f k)))"
  define stop where "stop = (if lo = 0 then [k] else [])"
  have r: "rep f lo hi (Suc fuel) k = more @ stop" by (simp add: more_def stop_def)
  have dm: "dec more" using m by (simp add: more_def dec_def)
  have gm: "\<forall>x \<in> set more. k < x" using gt by (simp add: more_def)
  have ds: "dec stop" by (simp add: stop_def dec_def)
  have ss: "set stop \<subseteq> {k}" by (auto simp: stop_def)
  have cross: "\<forall>x \<in> set more. \<forall>y \<in> set stop. y < x"
  proof (intro ballI)
    fix x y assume "x \<in> set more" "y \<in> set stop"
    then have "k < x" "y = k" using gm ss by auto
    then show "y < x" by simp
  qed
  have "dec (more @ stop)"
    using dm ds cross unfolding dec_def sorted_wrt_append by blast
  moreover have "\<forall>j \<in> set (more @ stop). k \<le> j"
  proof
    fix j assume "j \<in> set (more @ stop)"
    then have "j \<in> set more \<or> j \<in> set stop" by simp
    then show "k \<le> j" using gm ss by (auto simp: less_imp_le)
  qed
  ultimately show ?case unfolding r by blast
qed

lemma is_upper_not_space: "is_upper c \<Longrightarrow> c \<noteq> CHR '' ''"
  by (auto simp: is_upper_def)

lemma ends_Upper: "ends Upper t = one_char is_upper t"
  by (rule ext) simp

lemma ends_upper_run:
  "ends (Rep lo None Upper) t i =
     (if lo \<le> run is_upper t i then rev [i + lo ..< Suc (i + run is_upper t i)] else [])"
  by (simp add: ends_Upper rep_class_unbounded del: upt_Suc)

lemma rev_upt_facts:
  assumes "j \<in> set (rev [a ..< Suc b])" "j \<noteq> hd (rev [a ..< Suc b])"
  shows "a \<le> j \<and> j < b"
proof -
  have ab: "a \<le> b" using assms(1) by auto
  then have "hd (rev [a ..< Suc b]) = b" by (simp add: hd_rev)
  then show ?thesis using assms by auto
qed

lemma group_body:
  "ends (Seq (Lit CHR '' '') (Rep 2 None Upper)) t k =
     (if k < length t \<and> t ! k = CHR '' '' \<and> 2 \<le> run is_upper t (Suc k)
      then rev [Suc k + 2 ..< Suc (Suc k + run is_upper t (Suc k))] else [])"
  unfolding ends.simps(5) ends_upper_run
  by (simp add: one_char_def del: upt_Suc)

lemma group_body_dead:
  "k < length t \<Longrightarrow> is_upper (t ! k) \<Longrightarrow> ends (Seq (Lit CHR '' '') (Rep 2 None Upper)) t k = []"
  unfolding group_body using is_upper_not_space by auto

lemma group_body_tail:
  assumes "j \<in> set (ends (Seq (Lit CHR '' '') (Rep 2 None Upper)) t k)"
    and "j \<noteq> hd (ends (Seq (Lit CHR '' '') (Rep 2 None Upper)) t k)"
  shows "ends (Seq (Lit CHR '' '') (Rep 2 None Upper)) t j = []"
proof -
  let ?r = "run is_upper t (Suc k)"
  have e: "ends (Seq (Lit CHR '' '') (Rep 2 None Upper)) t k = rev [Suc k + 2 ..< Suc (Suc k + ?r)]"
    using assms(1) unfolding group_body by (auto split: if_splits simp del: upt_Suc)
  from rev_upt_facts[OF assms[unfolded e]] have "Suc k \<le> j" "j < Suc k + ?r" by auto
  from run_nth[OF this] have "j < length t" "is_upper (t ! j)" by auto
  then show ?thesis by (rule group_body_dead)
qed

lemma ends_groups_dec:
  "dec (ends (Rep lo hi (Seq (Lit CHR '' '') (Rep 2 None Upper))) t k)
   \<and> (\<forall>j \<in> set (ends (Rep lo hi (Seq (Lit CHR '' '') (Rep 2 None Upper))) t k). k \<le> j)"
  unfolding ends.simps(6)
proof (rule rep_dec)
  show "\<And>k. dec (ends (Seq (Lit CHR '' '') (Rep 2 None Upper)) t k)"
    unfolding group_body by (simp add: dec_rev_upt del: upt_Suc) (simp add: dec_def)
  show "\<And>k j. j \<in> set (ends (Seq (Lit CHR '' '') (Rep 2 None Upper)) t k) \<Longrightarrow>
           j \<noteq> hd (ends (Seq (Lit CHR '' '') (Rep 2 None Upper)) t k) \<Longrightarrow>
           ends (Seq (Lit CHR '' '') (Rep 2 None Upper)) t j = []"
    by (rule group_body_tail)
qed

lemma ends_groups_dead:
  assumes "k < length t" "is_upper (t ! k)"
  shows "set (ends (Rep lo hi (Seq (Lit CHR '' '') (Rep 2 None Upper))) t k) \<subseteq> {k}"
  unfolding ends.simps(6)
  by (rule rep_dead[of "ends (Seq (Lit CHR '' '') (Rep 2 None Upper)) t" k])
     (rule group_body_dead[OF assms])

lemma ends_name_body_dec:
  "dec (ends (Seq (Rep 3 None Upper)
                  (Rep 0 (Some 3) (Seq (Lit CHR '' '') (Rep 2 None Upper)))) t i)"
  unfolding ends.simps(5)
proof (rule dec_concat_map)
  let ?A = "ends (Rep 3 None Upper) t i"
  show "dec ?A" unfolding ends_upper_run by (simp add: dec_rev_upt del: upt_Suc) (simp add: dec_def)
  show "\<And>k. k \<in> set ?A \<Longrightarrow>
          dec (ends (Rep 0 (Some 3) (Seq (Lit CHR '' '') (Rep 2 None Upper))) t k)
          \<and> (\<forall>j \<in> set (ends (Rep 0 (Some 3) (Seq (Lit CHR '' '') (Rep 2 None Upper))) t k). k \<le> j)"
    using ends_groups_dec by blast
  show "\<And>k. k \<in> set ?A \<Longrightarrow> k \<noteq> hd ?A \<Longrightarrow>
          set (ends (Rep 0 (Some 3) (Seq (Lit CHR '' '') (Rep 2 None Upper))) t k) \<subseteq> {k}"
  proof -
    fix k assume k: "k \<in> set ?A" "k \<noteq> hd ?A"
    have e: "?A = rev [i + 3 ..< Suc (i + run is_upper t i)]"
      using k(1) unfolding ends_upper_run by (auto split: if_splits simp del: upt_Suc)
    from rev_upt_facts[OF k[unfolded e]] have "i \<le> k" "k < i + run is_upper t i" by auto
    from run_nth[OF this] have "k < length t" "is_upper (t ! k)" by auto
    then show "set (ends (Rep 0 (Some 3) (Seq (Lit CHR '' '') (Rep 2 None Upper))) t k) \<subseteq> {k}"
      by (rule ends_groups_dead)
  qed
qed

lemma concat_word_boundary:
  "concat (map (ends WordB t) xs) = filter (word_boundary t) xs"
  by (induction xs) auto

lemma ends_nome_dec: "dec (ends nome_re t i)"
proof -
  have "ends nome_re t i =
          (if word_boundary t i
           then filter (word_boundary t)
                  (ends (Seq (Rep 3 None Upper)
                             (Rep 0 (Some 3) (Seq (Lit CHR '' '') (Rep 2 None Upper)))) t i)
           else [])"
    unfolding nome_re_def ends.simps(5)[of WordB] ends.simps(5)[of _ WordB] concat_word_boundary
    by simp
  then show ?thesis using dec_filter[OF ends_name_body_dec] by (simp add: dec_def)
qed

lemma well_formed_patterns:
  "well_formed nome_re" "well_formed numero_re" "well_formed data_re" "well_formed valores_re"
  by (simp_all add: nome_re_def numero_re_def data_re_def valores_re_def)

lemma nome_longest:
  assumes "search_from nome_re t 0 = Some (i, j)" "matches nome_re t i j'"
  shows "j' \<le> j"
proof -
  from search_from_Some[OF well_formed_patterns(1) assms(1)]
  have i: "i \<le> length t" and j: "j = hd (ends nome_re t i)" by auto
  have "j' \<in> set (ends nome_re t i)"
    using ends_correct[OF well_formed_patterns(1) i] assms(2) by simp
  from dec_hd_max[OF ends_nome_dec this] j show ?thesis by simp
qed

section \<open>Matches as strings of a regular language\<close>

lemma length_substr: "i \<le> j \<Longrightarrow> j \<le> length t \<Longrightarrow> length (substr t i j) = j - i"
  by (simp add: substr_def)

lemma substr_append:
  "i \<le> k \<Longrightarrow> k \<le> j \<Longrightarrow> j \<le> length t \<Longrightarrow> substr t i j = substr t i k @ substr t k j"
proof -
  assume a: "i \<le> k" "k \<le> j" "j \<le> length t"
  have "take (j - i) (drop i t) = take (k - i) (drop i t) @ take (j - k) (drop (k - i) (drop i t))"
    using a take_add[of "k - i" "j - k" "drop i t"] by simp
  then show ?thesis using a by (simp add: substr_def)
qed

lemma substr_split:
  assumes "substr t i j = x @ y" "i \<le> j" "j \<le> length t"
  shows "i + length x \<le> j \<and> substr t i (i + length x) = x \<and> substr t (i + length x) j = y"
proof -
  have l: "length x + length y = j - i"
    using length_substr[OF assms(2,3)] assms(1) by simp
  then have k: "i \<le> i + length x" "i + length x \<le> j" using assms(2) by auto
  from substr_append[OF k assms(3)] assms(1)
  have e: "substr t i (i + length x) @ substr t (i + length x) j = x @ y" by simp
  have "length (substr t i (i + length x)) = length x"
    using length_substr[OF k(1)] k(2) assms(3) by simp
  with e show ?thesis using k(2) by simp
qed

lemma substr_single:
  "i \<le> length t \<Longrightarrow> (i \<le> j \<and> j \<le> length t \<and> substr t i j = [c])
     \<longleftrightarrow> (i < length t \<and> t ! i = c \<and> j = Suc i)"
proof
  assume i: "i \<le> length t" and a: "i \<le> j \<and> j \<le> length t \<and> substr t i j = [c]"
  then have "j - i = 1" using length_substr[of i j t] by simp
  then have j: "j = Suc i" by simp
  then have il: "i < length t" using a by simp
  have "substr t i (Suc i) = [t ! i]" using il by (simp add: substr_def take_Suc_conv_app_nth)
  then show "i < length t \<and> t ! i = c \<and> j = Suc i" using a j il by simp
next
  assume "i < length t \<and> t ! i = c \<and> j = Suc i"
  then show "i \<le> j \<and> j \<le> length t \<and> substr t i j = [c]"
    by (simp add: substr_def take_Suc_conv_app_nth)
qed

lemma substr_class:
  assumes "i \<le> length t"
  shows "(i < length t \<and> P (t ! i) \<and> j = Suc i)
         \<longleftrightarrow> (i \<le> j \<and> j \<le> length t \<and> (\<exists>c. substr t i j = [c] \<and> P c))"
proof
  assume a: "i < length t \<and> P (t ! i) \<and> j = Suc i"
  then have "i \<le> j \<and> j \<le> length t \<and> substr t i j = [t ! i]"
    using substr_single[OF assms, of j "t ! i"] by simp
  then show "i \<le> j \<and> j \<le> length t \<and> (\<exists>c. substr t i j = [c] \<and> P c)" using a by blast
next
  assume "i \<le> j \<and> j \<le> length t \<and> (\<exists>c. substr t i j = [c] \<and> P c)"
  then obtain c where c: "i \<le> j \<and> j \<le> length t \<and> substr t i j = [c]" "P c" by blast
  from c(1) substr_single[OF assms, of j c] have "i < length t \<and> t ! i = c \<and> j = Suc i" by simp
  then show "i < length t \<and> P (t ! i) \<and> j = Suc i" using c(2) by simp
qed

lemma pow_lang:
  assumes step: "\<And>i j. i \<le> length t \<Longrightarrow> M i j \<longleftrightarrow> (i \<le> j \<and> j \<le> length t \<and> S (substr t i j))"
  shows "i \<le> length t \<Longrightarrow>
         (M ^^ n) i j \<longleftrightarrow>
           (i \<le> j \<and> j \<le> length t \<and> (\<exists>ws. length ws = n \<and> list_all S ws \<and> substr t i j = concat ws))"
proof (induction n arbitrary: i)
  case 0
  show ?case
  proof
    assume "(M ^^ 0) i j"
    then have "j = i" by simp
    then show "i \<le> j \<and> j \<le> length t \<and> (\<exists>ws. length ws = 0 \<and> list_all S ws \<and> substr t i j = concat ws)"
      using 0 by (simp add: substr_def)
  next
    assume a: "i \<le> j \<and> j \<le> length t \<and> (\<exists>ws. length ws = 0 \<and> list_all S ws \<and> substr t i j = concat ws)"
    then have "substr t i j = []" by auto
    then have "j - i = 0" using length_substr[of i j t] a by simp
    then show "(M ^^ 0) i j" using a by simp
  qed
next
  case (Suc n)
  show ?case
  proof
    assume "(M ^^ Suc n) i j"
    from relpowp_Suc_D2[OF this] obtain k where k: "M i k" "(M ^^ n) k j" by blast
    from step[OF Suc.prems] k(1) have ik: "i \<le> k" "k \<le> length t" "S (substr t i k)" by auto
    from Suc.IH[OF ik(2)] k(2) obtain ws where
      ws: "k \<le> j" "j \<le> length t" "length ws = n" "list_all S ws" "substr t k j = concat ws"
      by auto
    have "substr t i j = concat (substr t i k # ws)"
      using substr_append[OF ik(1) ws(1,2)] ws(5) by simp
    moreover have "length (substr t i k # ws) = Suc n" using ws(3) by simp
    moreover have "list_all S (substr t i k # ws)" using ik(3) ws(4) by simp
    ultimately show "i \<le> j \<and> j \<le> length t \<and>
        (\<exists>ws. length ws = Suc n \<and> list_all S ws \<and> substr t i j = concat ws)"
      using ik(1) ws(1,2) by (metis le_trans)
  next
    assume a: "i \<le> j \<and> j \<le> length t \<and>
        (\<exists>ws. length ws = Suc n \<and> list_all S ws \<and> substr t i j = concat ws)"
    then obtain ws where ws: "length ws = Suc n" "list_all S ws" "substr t i j = concat ws" by blast
    then obtain w rest where wr: "ws = w # rest" by (cases ws) auto
    have e: "substr t i j = w @ concat rest" using ws(3) wr by simp
    from substr_split[OF e] a have
      k: "i + length w \<le> j" "substr t i (i + length w) = w" "substr t (i + length w) j = concat rest"
      by auto
    have kl: "i + length w \<le> length t" using k(1) a by simp
    have "M i (i + length w)" using step[OF Suc.prems, of "i + length w"] k(2) kl ws(2) wr by simp
    moreover have "(M ^^ n) (i + length w) j"
      using Suc.IH[OF kl] k(1,3) a ws(1,2) wr by auto
    ultimately show "(M ^^ Suc n) i j" by (rule relpowp_Suc_I2)
  qed
qed

lemma matches_lang:
  "boundary_free r \<Longrightarrow> i \<le> length t \<Longrightarrow>
   matches r t i j \<longleftrightarrow> (i \<le> j \<and> j \<le> length t \<and> lang_of r (substr t i j))"
proof (induction r arbitrary: i j)
  case (Lit c)
  then show ?case using substr_single[of i t j c] by auto
next
  case Digit
  then show ?case using substr_class[of i t is_digit j] by simp
next
  case Upper
  then show ?case using substr_class[of i t is_upper j] by simp
next
  case WordB
  then show ?case by simp
next
  case (Seq a b)
  then have fa: "boundary_free a" and fb: "boundary_free b" by auto
  show ?case
  proof
    assume "matches (Seq a b) t i j"
    then obtain k where k: "matches a t i k" "matches b t k j" by auto
    from Seq.IH(1)[OF fa Seq.prems(2)] k(1) have a: "i \<le> k" "k \<le> length t" "lang_of a (substr t i k)"
      by auto
    from Seq.IH(2)[OF fb a(2)] k(2) have b: "k \<le> j" "j \<le> length t" "lang_of b (substr t k j)"
      by auto
    from substr_append[OF a(1) b(1,2)] a(3) b(3)
    have "lang_of (Seq a b) (substr t i j)" by auto
    then show "i \<le> j \<and> j \<le> length t \<and> lang_of (Seq a b) (substr t i j)"
      using a(1) b(1,2) by simp
  next
    assume h: "i \<le> j \<and> j \<le> length t \<and> lang_of (Seq a b) (substr t i j)"
    then obtain x y where xy: "substr t i j = x @ y" "lang_of a x" "lang_of b y" by auto
    from substr_split[OF xy(1)] h have
      k: "i + length x \<le> j" "substr t i (i + length x) = x" "substr t (i + length x) j = y"
      by auto
    have kl: "i + length x \<le> length t" using k(1) h by simp
    have "matches a t i (i + length x)"
      using Seq.IH(1)[OF fa Seq.prems(2), of "i + length x"] k(2) xy(2) kl by simp
    moreover have "matches b t (i + length x) j"
      using Seq.IH(2)[OF fb kl, of j] k(1,3) xy(3) h by simp
    ultimately show "matches (Seq a b) t i j" by auto
  qed
next
  case (Rep lo hi r)
  then have f: "boundary_free r" by simp
  have step: "\<And>i j. i \<le> length t \<Longrightarrow>
      matches r t i j \<longleftrightarrow> (i \<le> j \<and> j \<le> length t \<and> lang_of r (substr t i j))"
    using Rep.IH[OF f] .
  note p = pow_lang[of t "matches r t" "lang_of r", OF step Rep.prems(2)]
  show ?case
  proof
    assume "matches (Rep lo hi r) t i j"
    then obtain n where n: "lo \<le> n" "in_bound hi n" "((matches r t) ^^ n) i j" by auto
    from p[of n j] n(3) obtain ws where
      "i \<le> j" "j \<le> length t" "length ws = n" "list_all (lang_of r) ws" "substr t i j = concat ws"
      by auto
    then show "i \<le> j \<and> j \<le> length t \<and> lang_of (Rep lo hi r) (substr t i j)"
      using n(1,2) by auto
  next
    assume h: "i \<le> j \<and> j \<le> length t \<and> lang_of (Rep lo hi r) (substr t i j)"
    then obtain ws where ws: "lo \<le> length ws" "in_bound hi (length ws)" "list_all (lang_of r) ws"
      "substr t i j = concat ws" by auto
    then have "((matches r t) ^^ (length ws)) i j" using p[of "length ws" j] h by auto
    then show "matches (Rep lo hi r) t i j" using ws(1,2) by auto
  qed
qed

lemma concat_singletons:
  "(\<exists>ws. length ws = n \<and> list_all (\<lambda>w. \<exists>c. w = [c] \<and> P c) ws \<and> s = concat ws)
     \<longleftrightarrow> (length s = n \<and> list_all P s)"
proof
  assume "\<exists>ws. length ws = n \<and> list_all (\<lambda>w. \<exists>c. w = [c] \<and> P c) ws \<and> s = concat ws"
  then obtain ws where ws: "length ws = n" "list_all (\<lambda>w. \<exists>c. w = [c] \<and> P c) ws" "s = concat ws"
    by blast
  have "list_all (\<lambda>w. \<exists>c. w = [c] \<and> P c) ws \<Longrightarrow>
          length (concat ws) = length ws \<and> list_all P (concat ws)"
    by (induction ws) auto
  then show "length s = n \<and> list_all P s" using ws by simp
next
  assume a: "length s = n \<and> list_all P s"
  have "list_all P s \<Longrightarrow> list_all (\<lambda>w. \<exists>c. w = [c] \<and> P c) (map (\<lambda>c. [c]) s)
          \<and> s = concat (map (\<lambda>c. [c]) s)"
    by (induction s) auto
  then have "length (map (\<lambda>c. [c]) s) = n \<and> list_all (\<lambda>w. \<exists>c. w = [c] \<and> P c) (map (\<lambda>c. [c]) s)
          \<and> s = concat (map (\<lambda>c. [c]) s)" using a by simp
  then show "\<exists>ws. length ws = n \<and> list_all (\<lambda>w. \<exists>c. w = [c] \<and> P c) ws \<and> s = concat ws"
    by blast
qed

lemma lang_rep_count:
  "lang_of (Rep lo hi r) s \<longleftrightarrow>
     (\<exists>n. lo \<le> n \<and> in_bound hi n \<and>
        (\<exists>ws. length ws = n \<and> list_all (lang_of r) ws \<and> s = concat ws))"
  by auto

lemma lang_upper_rep:
  "lang_of (Rep lo hi Upper) s \<longleftrightarrow> (lo \<le> length s \<and> in_bound hi (length s) \<and> list_all is_upper s)"
proof -
  have u: "lang_of Upper = (\<lambda>w. \<exists>c. w = [c] \<and> is_upper c)" by (rule ext) simp
  show ?thesis unfolding lang_rep_count u concat_singletons by auto
qed

lemma lang_digit_rep:
  "lang_of (Rep lo hi Digit) s \<longleftrightarrow> (lo \<le> length s \<and> in_bound hi (length s) \<and> list_all is_digit s)"
proof -
  have u: "lang_of Digit = (\<lambda>w. \<exists>c. w = [c] \<and> is_digit c)" by (rule ext) simp
  show ?thesis unfolding lang_rep_count u concat_singletons by auto
qed

lemma prefixed_groups:
  "(\<exists>gs. length gs = n \<and> list_all (\<lambda>g. \<exists>y. g = c # y \<and> Q y) gs \<and> s = concat gs)
     \<longleftrightarrow> (\<exists>ws. length ws = n \<and> list_all Q ws \<and> s = concat (map ((#) c) ws))"
proof
  assume "\<exists>gs. length gs = n \<and> list_all (\<lambda>g. \<exists>y. g = c # y \<and> Q y) gs \<and> s = concat gs"
  then obtain gs where gs: "length gs = n" "list_all (\<lambda>g. \<exists>y. g = c # y \<and> Q y) gs" "s = concat gs"
    by blast
  have "list_all (\<lambda>g. \<exists>y. g = c # y \<and> Q y) gs \<Longrightarrow>
          list_all Q (map tl gs) \<and> gs = map ((#) c) (map tl gs)"
    by (induction gs) auto
  then have "length (map tl gs) = n \<and> list_all Q (map tl gs) \<and> s = concat (map ((#) c) (map tl gs))"
    using gs by simp
  then show "\<exists>ws. length ws = n \<and> list_all Q ws \<and> s = concat (map ((#) c) ws)" by blast
next
  assume "\<exists>ws. length ws = n \<and> list_all Q ws \<and> s = concat (map ((#) c) ws)"
  then obtain ws where ws: "length ws = n" "list_all Q ws" "s = concat (map ((#) c) ws)" by blast
  have "list_all Q ws \<Longrightarrow> list_all (\<lambda>g. \<exists>y. g = c # y \<and> Q y) (map ((#) c) ws)"
    by (induction ws) auto
  then have "length (map ((#) c) ws) = n \<and> list_all (\<lambda>g. \<exists>y. g = c # y \<and> Q y) (map ((#) c) ws)
               \<and> s = concat (map ((#) c) ws)" using ws by simp
  then show "\<exists>gs. length gs = n \<and> list_all (\<lambda>g. \<exists>y. g = c # y \<and> Q y) gs \<and> s = concat gs"
    by blast
qed

lemma lang_prefixed:
  "lang_of (Seq (Lit c) r) g \<longleftrightarrow> (\<exists>y. g = c # y \<and> lang_of r y)"
  by auto

lemma lang_name:
  "lang_of (Seq (Rep 3 None Upper)
                (Rep 0 (Some 3) (Seq (Lit CHR '' '') (Rep 2 None Upper)))) s \<longleftrightarrow> name_shape s"
proof -
  let ?Q = "\<lambda>x. 2 \<le> length x \<and> list_all is_upper x"
  have g: "lang_of (Seq (Lit CHR '' '') (Rep 2 None Upper)) = (\<lambda>g. \<exists>y. g = CHR '' '' # y \<and> ?Q y)"
    by (rule ext) (simp only: lang_prefixed lang_upper_rep in_bound_def option.case simp_thms)
  have r: "\<And>y. lang_of (Rep 0 (Some 3) (Seq (Lit CHR '' '') (Rep 2 None Upper))) y \<longleftrightarrow>
             (\<exists>ws. length ws \<le> 3 \<and> list_all ?Q ws \<and> y = concat (map ((#) CHR '' '') ws))"
  proof -
    fix y
    have "lang_of (Rep 0 (Some 3) (Seq (Lit CHR '' '') (Rep 2 None Upper))) y \<longleftrightarrow>
            (\<exists>n. n \<le> 3 \<and> (\<exists>gs. length gs = n \<and> list_all (\<lambda>g. \<exists>y. g = CHR '' '' # y \<and> ?Q y) gs
                                \<and> y = concat gs))"
      unfolding lang_rep_count g by (simp add: in_bound_def)
    then show "lang_of (Rep 0 (Some 3) (Seq (Lit CHR '' '') (Rep 2 None Upper))) y \<longleftrightarrow>
             (\<exists>ws. length ws \<le> 3 \<and> list_all ?Q ws \<and> y = concat (map ((#) CHR '' '') ws))"
      unfolding prefixed_groups by auto
  qed
  show ?thesis
    unfolding lang_of.simps(5) r lang_upper_rep name_shape_def
    by (auto simp: in_bound_def)
qed


end
